theory Spec2Isabelle
  imports Main
begin

section \<open>Data model of scheduling-tracks.js\<close>

text \<open>
  A slot index is the JavaScript object the builders return and the selectors consume:
  string keys (time-slot labels such as \<open>Mon 10am\<close>) mapped to arrays of participant
  e-mails. \<open>Object.entries\<close> enumerates string keys in insertion order, so the object is
  an association list in that order; an object never holds a key twice, which theorems
  state as \<open>distinct (map fst idx)\<close>. Labels are built as day, space, token, so they are
  never integer-like keys (which JavaScript would enumerate first).
\<close>

type_synonym email = string
type_synonym slot_index = "(string \<times> email list) list"

datatype error = TypeError

subsection \<open>JavaScript \<open>Set\<close>: a duplicate-free list in insertion order\<close>

definition set_has :: "'a list \<Rightarrow> 'a \<Rightarrow> bool" where
  "set_has s x = (x \<in> set s)"

definition set_add :: "'a \<Rightarrow> 'a list \<Rightarrow> 'a list" where
  "set_add x s = (if set_has s x then s else s @ [x])"

definition set_delete :: "'a \<Rightarrow> 'a list \<Rightarrow> 'a list" where
  "set_delete x s = filter (\<lambda>y. y \<noteq> x) s"

definition new_Set :: "'a list \<Rightarrow> 'a list" where
  "new_Set xs = fold set_add xs []"

definition set_size :: "'a list \<Rightarrow> nat" where
  "set_size s = length s"

subsection \<open>JavaScript objects: property assignment and \<open>delete\<close>\<close>

fun obj_set :: "'k \<Rightarrow> 'v \<Rightarrow> ('k \<times> 'v) list \<Rightarrow> ('k \<times> 'v) list" where
  "obj_set k v [] = [(k, v)]"
| "obj_set k v ((k', v') # r) = (if k = k' then (k, v) # r else (k', v') # obj_set k v r)"

definition obj_delete :: "'k \<Rightarrow> ('k \<times> 'v) list \<Rightarrow> ('k \<times> 'v) list" where
  "obj_delete k obj = filter (\<lambda>kv. fst kv \<noteq> k) obj"

definition obj_values :: "('k \<times> 'v) list \<Rightarrow> 'v list" where
  "obj_values obj = map snd obj"

subsection \<open>\<open>Array.prototype.sort\<close> with a comparator\<close>

text \<open>
  ECMAScript (2019 and later, the V8 runtime of Apps Script) requires \<open>sort\<close> to be
  stable: elements the comparator ranks equal keep their order. For a consistent
  comparator the result is then determined; it is computed here by a stable insertion
  sort, where \<open>cmp a b \<le> 0\<close> keeps \<open>a\<close>, the earlier element, in front of \<open>b\<close>.
\<close>

fun insert_by :: "('a \<Rightarrow> 'a \<Rightarrow> int) \<Rightarrow> 'a \<Rightarrow> 'a list \<Rightarrow> 'a list" where
  "insert_by cmp x [] = [x]"
| "insert_by cmp x (y # ys) = (if cmp x y \<le> 0 then x # y # ys else y # insert_by cmp x ys)"

definition js_sort :: "('a \<Rightarrow> 'a \<Rightarrow> int) \<Rightarrow> 'a list \<Rightarrow> 'a list" where
  "js_sort cmp xs = foldr (insert_by cmp) xs []"

section \<open>getMinimumTimeSlots\<close>

definition newCoverage :: "email list \<Rightarrow> string \<times> email list \<Rightarrow> nat" where
  "newCoverage studentsCovered a =
     length (filter (\<lambda>email. \<not> set_has studentsCovered email) (snd a))"

definition sortedSlots_min :: "email list \<Rightarrow> slot_index \<Rightarrow> slot_index" where
  "sortedSlots_min studentsCovered filteredSlots =
     js_sort (\<lambda>a b. int (newCoverage studentsCovered b) - int (newCoverage studentsCovered a))
       filteredSlots"

text \<open>The test \<open>if (bestSlotEmails)\<close>: an array, even an empty one, is truthy.\<close>

definition truthy_array :: "'a list \<Rightarrow> bool" where
  "truthy_array xs = True"

lemma set_js_sort: "set (js_sort cmp xs) = set xs"
proof -
  have ins: "set (insert_by cmp x ys) = insert x (set ys)" for x ys
    by (induction ys) auto
  show ?thesis
    by (induction xs) (simp_all add: js_sort_def ins)
qed

lemma length_obj_delete: "(k, v) \<in> set obj \<Longrightarrow> length (obj_delete k obj) < length obj"
  unfolding obj_delete_def
  by (induction obj) (auto simp: less_Suc_eq_le)

text \<open>
  The loop of getMinimumTimeSlots. The state is the caller's object \<open>filteredSlots\<close>
  (mutated by \<open>delete\<close>), the set \<open>studentsCovered\<close> and the object \<open>selectedSlots\<close>.
  Destructuring \<open>sortedSlots[0]\<close> of an empty array throws a TypeError. The function
  returns \<open>selectedSlots\<close>; the final state of the caller's object is returned with it.
\<close>

function min_loop ::
  "email list \<Rightarrow> slot_index \<Rightarrow> email list \<Rightarrow> slot_index \<Rightarrow> error + (slot_index \<times> slot_index)"
where
  "min_loop allStudents filteredSlots studentsCovered selectedSlots =
     (if set_size studentsCovered < set_size allStudents then
        (case sortedSlots_min studentsCovered filteredSlots of
           [] \<Rightarrow> Inl TypeError
         | (bestSlotKey, bestSlotEmails) # _ \<Rightarrow>
             if truthy_array bestSlotEmails then
               min_loop allStudents
                 (obj_delete bestSlotKey filteredSlots)
                 (fold set_add bestSlotEmails studentsCovered)
                 (obj_set bestSlotKey bestSlotEmails selectedSlots)
             else Inr (selectedSlots, filteredSlots))
      else Inr (selectedSlots, filteredSlots))"
  by pat_completeness auto
termination
proof (relation "measure (\<lambda>(a, fs, c, s). length fs)", goal_cases)
  case 1
  show ?case by simp
next
  case (2 allStudents filteredSlots studentsCovered selectedSlots x21 x22 k es)
  then have "(k, es) \<in> set (sortedSlots_min studentsCovered filteredSlots)"
    by simp
  then have "(k, es) \<in> set filteredSlots"
    by (simp add: sortedSlots_min_def set_js_sort)
  then show ?case
    by (simp add: length_obj_delete)
qed

declare min_loop.simps [simp del]

definition getMinimumTimeSlots :: "slot_index \<Rightarrow> error + (slot_index \<times> slot_index)" where
  "getMinimumTimeSlots filteredSlots =
     min_loop (new_Set (concat (obj_values filteredSlots))) filteredSlots [] []"

section \<open>getIterativeTimeSlots\<close>

subsection \<open>The output sheet\<close>

text \<open>
  The function writes to a sheet of the active spreadsheet: \<open>clear\<close>, \<open>appendRow\<close> and
  \<open>getRange(a1).setValue\<close>. A sheet is the list of rows appended since it was cleared
  and the values set by A1 notation. The rows this function appends after the header
  have three cells (columns A to C) and it sets only D2, E2 and F2, so the two never
  overlap. \<open>Logger.log\<close> is not modelled.
\<close>

datatype cell = Str string | Num int

record sheet =
  rows :: "cell list list"
  ranges :: "string \<Rightarrow> cell option"

type_synonym spreadsheet = "string \<Rightarrow> sheet option"

definition getSheetByName :: "spreadsheet \<Rightarrow> string \<Rightarrow> sheet option" where
  "getSheetByName ss sheetName = ss sheetName"

definition insertSheet :: "spreadsheet \<Rightarrow> string \<Rightarrow> sheet option" where
  "insertSheet ss sheetName = Some \<lparr>rows = [], ranges = (\<lambda>a1. None)\<rparr>"

definition clear :: "sheet \<Rightarrow> sheet" where
  "clear sh = \<lparr>rows = [], ranges = (\<lambda>a1. None)\<rparr>"

definition appendRow :: "cell list \<Rightarrow> sheet \<Rightarrow> sheet" where
  "appendRow row sh = sh\<lparr>rows := rows sh @ [row]\<rparr>"

definition setValue :: "string \<Rightarrow> cell \<Rightarrow> sheet \<Rightarrow> sheet" where
  "setValue a1 v sh = sh\<lparr>ranges := (ranges sh)(a1 \<mapsto> v)\<rparr>"

fun join :: "string \<Rightarrow> string list \<Rightarrow> string" where
  "join sep [] = []"
| "join sep [x] = x"
| "join sep (x # y # r) = x @ sep @ join sep (y # r)"

definition headers_iterative :: "cell list" where
  "headers_iterative =
     [Str ''Time Slot'', Str ''Students'', Str ''Num Students'', Str ''Excluded Students'',
      Str ''Num Excluded Students'', Str ''Total Students'']"

subsection \<open>The selection loop\<close>

definition sortedSlots_iter :: "slot_index \<Rightarrow> email list \<Rightarrow> (string \<times> email list \<times> nat) list" where
  "sortedSlots_iter selectedSlots remainingStudents =
     js_sort (\<lambda>a b. int (snd (snd b)) - int (snd (snd a)))
       (filter (\<lambda>(_, _, count). count > 0)
         (map (\<lambda>(timeSlot, studentEmails).
                 let filteredEmails = filter (\<lambda>email. set_has remainingStudents email) studentEmails
                 in (timeSlot, filteredEmails, length filteredEmails))
              selectedSlots))"

lemma sortedSlots_iter_member:
  assumes "(s, f, c) \<in> set (sortedSlots_iter slots rem)"
  shows "c = length f" and "0 < c"
    and "\<exists>es. (s, es) \<in> set slots \<and> f = filter (\<lambda>email. set_has rem email) es"
  using assms unfolding sortedSlots_iter_def set_js_sort
  by (auto simp: Let_def)

lemma fold_set_delete: "fold set_delete xs s = filter (\<lambda>y. y \<notin> set xs) s"
proof (induction xs arbitrary: s)
  case Nil
  show ?case by simp
next
  case (Cons x xs)
  have "fold set_delete (x # xs) s = fold set_delete xs (set_delete x s)"
    by simp
  also have "\<dots> = filter (\<lambda>y. y \<notin> set xs) (set_delete x s)"
    by (rule Cons.IH)
  also have "\<dots> = filter (\<lambda>y. y \<notin> set (x # xs)) s"
    by (simp add: set_delete_def conj_commute)
  finally show ?case .
qed

lemma chosen_shrinks_remaining:
  assumes "sortedSlots_iter slots rem = (s, f, c) # rest"
  shows "length (fold set_delete f rem) < length rem"
proof -
  have m: "(s, f, c) \<in> set (sortedSlots_iter slots rem)"
    using assms by simp
  from sortedSlots_iter_member [OF m] have "f \<noteq> []"
    and sub: "\<exists>es. f = filter (\<lambda>email. set_has rem email) es"
    by auto
  then obtain x where x: "x \<in> set f" by (cases f) auto
  with sub have "x \<in> set rem" by (auto simp: set_has_def)
  with x show ?thesis
    unfolding fold_set_delete by (intro length_filter_less [of x]) auto
qed

text \<open>
  The loop of getIterativeTimeSlots, lines 268 to 289. It returns the three variables
  it leaves behind: \<open>finalSelections\<close>, \<open>remainingStudents\<close> and \<open>totalStudents\<close>.
\<close>

function iter_loop ::
  "slot_index \<Rightarrow> int \<Rightarrow> email list \<Rightarrow> cell list list \<Rightarrow> nat
     \<Rightarrow> cell list list \<times> email list \<times> nat"
where
  "iter_loop selectedSlots minGroupSize remainingStudents finalSelections totalStudents =
     (if int (set_size remainingStudents) \<ge> minGroupSize then
        (case sortedSlots_iter selectedSlots remainingStudents of
           [] \<Rightarrow> (finalSelections, remainingStudents, totalStudents)
         | (chosenSlot, chosenStudents, count) # _ \<Rightarrow>
             if int count < minGroupSize then
               (finalSelections, remainingStudents, totalStudents)
             else
               iter_loop selectedSlots minGroupSize
                 (fold set_delete chosenStudents remainingStudents)
                 (finalSelections @
                    [[Str chosenSlot, Str (join '', '' chosenStudents), Num (int count)]])
                 (totalStudents + count))
      else (finalSelections, remainingStudents, totalStudents))"
  by pat_completeness auto
termination
proof (relation "measure (\<lambda>(sl, m, rem, fin, tot). length rem)", goal_cases)
  case 1
  show ?case by simp
next
  case (2 selectedSlots minGroupSize remainingStudents finalSelections totalStudents
      x21 x22 chosenSlot y chosenStudents count)
  then have "sortedSlots_iter selectedSlots remainingStudents
      = (chosenSlot, chosenStudents, count) # x22"
    by simp
  then show ?case
    by (simp add: chosen_shrinks_remaining)
qed

declare iter_loop.simps [simp del]

text \<open>Lines 259 to 289: the initial set of remaining students and the loop.\<close>

definition selectIterative :: "slot_index \<Rightarrow> int \<Rightarrow> cell list list \<times> email list \<times> nat" where
  "selectIterative selectedSlots minGroupSize =
     iter_loop selectedSlots minGroupSize
       (fold (\<lambda>studentList remainingStudents. fold set_add studentList remainingStudents)
          (obj_values selectedSlots) [])
       [] 0"

text \<open>
  The whole function. \<open>getSheetByName(sheetName) || insertSheet(sheetName)\<close> always
  yields a sheet, so the early return of \<open>if (!sheet)\<close> is never taken; it is the
  \<open>None\<close> branch. The result is the spreadsheet after the call.
\<close>

definition getIterativeTimeSlots ::
  "spreadsheet \<Rightarrow> slot_index \<Rightarrow> int \<Rightarrow> string \<Rightarrow> email list \<Rightarrow> email list \<Rightarrow> spreadsheet"
where
  "getIterativeTimeSlots ss selectedSlots minGroupSize sheetName virtualStudents excludedStudents =
     (case (case getSheetByName ss sheetName of
              Some sh \<Rightarrow> Some sh
            | None \<Rightarrow> insertSheet ss sheetName) of
        None \<Rightarrow> ss
      | Some sh0 \<Rightarrow>
          (let sh1 = appendRow headers_iterative (clear sh0);
               (finalSelections, remainingStudents, totalStudents) =
                  selectIterative selectedSlots minGroupSize;
               sh2 = fold appendRow finalSelections sh1;
               sh3 = (if length excludedStudents > 0
                      then setValue ''D2'' (Str (join '', '' excludedStudents)) sh2
                      else sh2);
               sh4 = setValue ''E2'' (Num (int (length excludedStudents))) sh3;
               sh5 = setValue ''F2'' (Num (int (length excludedStudents + totalStudents))) sh4
           in ss(sheetName \<mapsto> sh5)))"

section \<open>The index builders: findAvailableSlotsForEmails and findAvailableSlots\<close>

text \<open>
  Both builders read the values of the sheet \<open>final-availabilities\<close>, the array
  \<open>data\<close>: a list of rows, each a list of cells, taken here as texts. Reading a cell
  beyond the end of a row gives \<open>undefined\<close>, which is \<open>None\<close>. Column 1 holds the
  e-mail, column 4 the tracks and columns 5 to 11 the availability of Monday to Sunday.
\<close>

definition days :: "string list" where
  "days = [''Mon'', ''Tue'', ''Wed'', ''Thu'', ''Fri'', ''Sat'', ''Sun'']"

definition availabilityIndices :: "nat list" where
  "availabilityIndices = [5, 6, 7, 8, 9, 10, 11]"

definition emailIndex :: nat where
  "emailIndex = 1"

definition trackIndex :: nat where
  "trackIndex = 4"

definition cell_at :: "string list \<Rightarrow> nat \<Rightarrow> string option" where
  "cell_at row i = (if i < length row then Some (row ! i) else None)"

text \<open>\<open>String.prototype.split\<close> with a one-character separator.\<close>

fun str_split :: "char \<Rightarrow> string \<Rightarrow> string list" where
  "str_split sep [] = [[]]"
| "str_split sep (c # cs) =
     (if c = sep then [] # str_split sep cs
      else (case str_split sep cs of [] \<Rightarrow> [[c]] | t # ts \<Rightarrow> (c # t) # ts))"

text \<open>
  \<open>String.prototype.trim\<close>. A text is the list of its characters and a character of
  this type has a code below 256; the white space and line terminators of ECMAScript
  among them are tab, line feed, vertical tab, form feed, carriage return, space and the
  no-break space U+00A0. (The others, such as U+FEFF and U+2028, have larger codes and
  are not characters of this type.)
\<close>

definition is_space :: "char \<Rightarrow> bool" where
  "is_space c =
     (c \<in> set [CHR 0x09, CHR 0x0A, CHR 0x0B, CHR 0x0C, CHR 0x0D, CHR 0x20, CHR 0xA0])"

definition trim :: "string \<Rightarrow> string" where
  "trim s = rev (dropWhile is_space (rev (dropWhile is_space s)))"

text \<open>\<open>String.prototype.includes\<close>: the second text occurs in the first.\<close>

fun starts_with :: "string \<Rightarrow> string \<Rightarrow> bool" where
  "starts_with s [] = True"
| "starts_with [] (c # cs) = False"
| "starts_with (d # ds) (c # cs) = (d = c \<and> starts_with ds cs)"

fun str_includes :: "string \<Rightarrow> string \<Rightarrow> bool" where
  "str_includes [] t = starts_with [] t"
| "str_includes (d # ds) t = (starts_with (d # ds) t \<or> str_includes ds t)"

text \<open>
  Lines 174 to 176 (and 110 to 114): create the entry of \<open>key\<close> when the object has
  none, then push the e-mail onto its array.
\<close>

definition push_email :: "string \<Rightarrow> email \<Rightarrow> slot_index \<Rightarrow> slot_index" where
  "push_email key email availableSlots =
     (let created = (case map_of availableSlots key of
                       None \<Rightarrow> obj_set key [] availableSlots
                     | Some list \<Rightarrow> availableSlots)
      in map (\<lambda>(k, list). if k = key then (k, list @ [email]) else (k, list)) created)"

text \<open>
  The body of \<open>availabilityIndices.forEach\<close>, the same text in both builders: an
  availability cell that is missing or empty is falsy and skipped; every token of any
  other cell is trimmed and gets the e-mail under the key day, space, token.
\<close>

definition addDay :: "string list \<Rightarrow> email \<Rightarrow> nat \<Rightarrow> slot_index \<Rightarrow> slot_index" where
  "addDay row email index availableSlots =
     (case cell_at row index of
        None \<Rightarrow> availableSlots
      | Some timeSlotsString \<Rightarrow>
          if timeSlotsString = [] then availableSlots
          else
            (let timeSlots = map trim (str_split CHR '','' timeSlotsString)
             in fold (\<lambda>slot acc. push_email (days ! (index - 5) @ '' '' @ slot) email acc)
                  timeSlots availableSlots))"

text \<open>Lines 165 to 180: the loop over the rows after the header row.\<close>

definition availableSlotsForEmails :: "string list list \<Rightarrow> email list \<Rightarrow> slot_index" where
  "availableSlotsForEmails data emails =
     fold (\<lambda>row availableSlots.
             case cell_at row emailIndex of
               None \<Rightarrow> availableSlots
             | Some email \<Rightarrow>
                 if email \<notin> set emails then availableSlots
                 else fold (addDay row email) availabilityIndices availableSlots)
          (drop 1 data) []"

definition findAvailableSlotsForEmails ::
  "string list list \<Rightarrow> email list \<Rightarrow> int \<Rightarrow> slot_index \<times> email list"
where
  "findAvailableSlotsForEmails data emails thresh =
     (let availableSlots = availableSlotsForEmails data emails;
          filteredSlots = filter (\<lambda>(_, list). int (length list) \<ge> thresh) availableSlots;
          includedStudents = new_Set (concat (obj_values filteredSlots));
          excludedStudents = filter (\<lambda>email. \<not> set_has includedStudents email) emails
      in (filteredSlots, excludedStudents))"

text \<open>
  Lines 92 to 119 of findAvailableSlots. \<open>data[i][trackIndex].split\<close> throws a
  TypeError when the row has no column 4; when it has one it has a column 1 too, so the
  e-mail is a text.
\<close>

fun collectTrack ::
  "string \<Rightarrow> string list list \<Rightarrow> slot_index \<Rightarrow> email list \<Rightarrow> error + (slot_index \<times> email list)"
where
  "collectTrack track [] availableSlots studentsInTrack = Inr (availableSlots, studentsInTrack)"
| "collectTrack track (row # rest) availableSlots studentsInTrack =
     (case cell_at row trackIndex of
        None \<Rightarrow> Inl TypeError
      | Some tracks \<Rightarrow>
          (let studentTracks = map trim (str_split CHR '','' tracks);
               found = list_ex (\<lambda>string. str_includes string track) studentTracks;
               email = row ! emailIndex
           in if found then
                collectTrack track rest
                  (fold (addDay row email) availabilityIndices availableSlots)
                  (studentsInTrack @ [email])
              else collectTrack track rest availableSlots studentsInTrack))"

definition findAvailableSlots ::
  "string list list \<Rightarrow> string \<Rightarrow> int \<Rightarrow> error + (slot_index \<times> email list)"
where
  "findAvailableSlots data track thresh =
     (case collectTrack track (drop 1 data) [] [] of
        Inl e \<Rightarrow> Inl e
      | Inr (availableSlots, studentsInTrack) \<Rightarrow>
          (let filteredSlots =
                 fold (\<lambda>(key, emails) acc.
                         if int (length emails) \<ge> thresh then obj_set key emails acc else acc)
                      availableSlots [];
               includedStudents =
                 fold (\<lambda>emails included. fold set_add emails included)
                      (obj_values filteredSlots) [];
               excludedStudents =
                 filter (\<lambda>email. \<not> set_has includedStudents email) studentsInTrack
           in Inr (filteredSlots, excludedStudents)))"

text \<open>
  The other reader of the same sheet, preprocessStudentData in
  interest-availability-query.js (line 73), splits an availability cell in the same way
  and then drops the empty tokens: \<open>split(",").map(t => t.trim()).filter(t => t)\<close>.
\<close>

definition preprocess_timeSlots :: "string \<Rightarrow> string list" where
  "preprocess_timeSlots timeSlotsString =
     filter (\<lambda>t. t \<noteq> []) (map trim (str_split CHR '','' timeSlotsString))"

section \<open>Predicates used to state the properties\<close>

fun each_adds_new :: "email list \<Rightarrow> slot_index \<Rightarrow> bool" where
  "each_adds_new seen [] = True"
| "each_adds_new seen (e # r) =
     ((\<exists>p\<in>set (snd e). p \<notin> set seen) \<and> each_adds_new (seen @ snd e) r)"

definition covered_by :: "slot_index \<Rightarrow> email set" where
  "covered_by sel = (\<Union>e\<in>set sel. set (snd e))"

definition entries_with :: "email \<Rightarrow> slot_index \<Rightarrow> slot_index" where
  "entries_with p sel = filter (\<lambda>e. p \<in> set (snd e)) sel"

definition filteredCount :: "email list \<Rightarrow> string \<times> email list \<Rightarrow> nat" where
  "filteredCount remainingStudents a =
     length (filter (\<lambda>email. set_has remainingStudents email) (snd a))"

definition getRows :: "spreadsheet \<Rightarrow> string \<Rightarrow> cell list list" where
  "getRows ss sheetName = (case ss sheetName of None \<Rightarrow> [] | Some sh \<Rightarrow> rows sh)"

definition getValue :: "spreadsheet \<Rightarrow> string \<Rightarrow> string \<Rightarrow> cell option" where
  "getValue ss sheetName a1 = (case ss sheetName of None \<Rightarrow> None | Some sh \<Rightarrow> ranges sh a1)"

definition min_inv :: "slot_index \<Rightarrow> slot_index \<Rightarrow> email list \<Rightarrow> slot_index \<Rightarrow> bool" where
  "min_inv idx0 fs cov sel \<longleftrightarrow>
     fs = filter (\<lambda>kv. fst kv \<notin> fst ` set sel) idx0 \<and>
     set sel \<subseteq> set idx0 \<and>
     set cov = covered_by sel \<and>
     distinct cov \<and>
     length sel \<le> length cov \<and>
     each_adds_new [] sel"

section \<open>Example inputs\<close>

definition ex_overlap :: slot_index where
  "ex_overlap = [(''A'', [''p1'', ''p2'']), (''B'', [''p2'', ''p3''])]"

definition ex_partial :: slot_index where
  "ex_partial = [(''A'', [''p1'', ''p2'']), (''B'', [''p1'', ''p2'', ''p3'']), (''C'', [''p3''])]"

definition ex_row :: "string list" where
  "ex_row = [''Ann'', ''ann@x.org'', ''2'', ''CS'', ''SEARCH'',
             ''10am,'', [], [], [], [], [], []]"

definition ex_data :: "string list list" where
  "ex_data =
     [[''Name'', ''Email'', ''Year'', ''Major'', ''Track'',
       ''Mon'', ''Tue'', ''Wed'', ''Thu'', ''Fri'', ''Sat'', ''Sun''],
      ex_row]"

definition ex_threshold :: slot_index where
  "ex_threshold = [(''A'', [''p1'', ''p2'']), (''B'', [''p3'', ''p4''])]"

definition ex_single :: slot_index where
  "ex_single = [(''A'', [''p1''])]"


definition ex_tie :: slot_index where
  "ex_tie = [(''C'', [''p5'']), (''A'', [''p1'', ''p2'']), (''B'', [''p3'', ''p4''])]"

section \<open>Library of facts about the data model\<close>

lemma set_set_add [simp]: "set (set_add x s) = insert x (set s)"
  by (auto simp: set_add_def set_has_def)

lemma distinct_set_add [simp]: "distinct (set_add x s) = distinct s"
  by (auto simp: set_add_def set_has_def)

lemma set_fold_set_add [simp]: "set (fold set_add xs s) = set xs \<union> set s"
  by (induction xs arbitrary: s) auto

lemma distinct_fold_set_add [simp]: "distinct (fold set_add xs s) = distinct s"
  by (induction xs arbitrary: s) auto

lemma set_new_Set [simp]: "set (new_Set xs) = set xs"
  by (simp add: new_Set_def)

lemma distinct_new_Set [simp]: "distinct (new_Set xs)"
  by (simp add: new_Set_def)

lemma length_set_add_mono: "length s \<le> length (fold set_add xs s)"
proof (induction xs arbitrary: s)
  case Nil show ?case by simp
next
  case (Cons x xs)
  have "length s \<le> length (set_add x s)" by (simp add: set_add_def)
  also have "\<dots> \<le> length (fold set_add xs (set_add x s))" by (rule Cons.IH)
  finally show ?case by simp
qed

lemma js_sort_Nil_iff: "js_sort cmp xs = [] \<longleftrightarrow> xs = []"
  using set_js_sort [of cmp xs] by (metis set_empty)

lemma js_sort_Cons: "js_sort cmp (x # xs) = insert_by cmp x (js_sort cmp xs)"
  by (simp add: js_sort_def)

lemma js_sort_head:
  "js_sort (\<lambda>a b. int (f b) - int (f a)) xs = h # rest \<Longrightarrow>
   \<exists>pre post. xs = pre @ h # post \<and> (\<forall>y\<in>set pre. f y < f h) \<and> (\<forall>y\<in>set post. f y \<le> f h)"
proof (induction xs arbitrary: h rest)
  case Nil
  then show ?case by (simp add: js_sort_def)
next
  case (Cons x xs)
  let ?cmp = "\<lambda>a b. int (f b) - int (f a)"
  show ?case
  proof (cases "js_sort ?cmp xs")
    case Nil
    then have "xs = []" by (simp add: js_sort_Nil_iff)
    with Cons.prems have "h = x" by (simp add: js_sort_def)
    with \<open>xs = []\<close> show ?thesis
      by (intro exI [of _ "[]"]) simp
  next
    case (Cons h' r')
    from Cons.IH [OF Cons] obtain pre post where
      d: "xs = pre @ h' # post" "\<forall>y\<in>set pre. f y < f h'" "\<forall>y\<in>set post. f y \<le> f h'"
      by blast
    show ?thesis
    proof (cases "f h' \<le> f x")
      case True
      with Cons Cons.prems have "h = x" by (simp add: js_sort_Cons)
      moreover have "\<forall>y\<in>set xs. f y \<le> f x"
        using d True by (auto simp: less_imp_le [THEN order_trans] intro: order_trans less_imp_le)
      ultimately show ?thesis by (intro exI [of _ "[]"] exI [of _ xs]) simp
    next
      case False
      with Cons Cons.prems have "h = h'" by (simp add: js_sort_Cons)
      with d False show ?thesis
        by (intro exI [of _ "x # pre"] exI [of _ post]) auto
    qed
  qed
qed

lemma js_sort_head_max:
  assumes "js_sort (\<lambda>a b. int (f b) - int (f a)) xs = h # rest"
  shows "h \<in> set xs" and "\<And>y. y \<in> set xs \<Longrightarrow> f y \<le> f h"
proof -
  from js_sort_head [OF assms] obtain pre post where
    d: "xs = pre @ h # post" "\<forall>y\<in>set pre. f y < f h" "\<forall>y\<in>set post. f y \<le> f h"
    by blast
  show "h \<in> set xs" using d by simp
  show "f y \<le> f h" if "y \<in> set xs" for y
    using that d by (auto intro: less_imp_le)
qed

lemma obj_set_fresh: "k \<notin> fst ` set obj \<Longrightarrow> obj_set k v obj = obj @ [(k, v)]"
  by (induction obj) auto

section \<open>The loop invariant of getMinimumTimeSlots\<close>

lemma min_loop_rule:
  assumes init: "I fs cov sel"
    and step: "\<And>fs cov sel k es rest. I fs cov sel \<Longrightarrow> set_size cov < set_size a \<Longrightarrow>
        sortedSlots_min cov fs = (k, es) # rest \<Longrightarrow>
        I (obj_delete k fs) (fold set_add es cov) (obj_set k es sel)"
    and nonempty: "\<And>fs cov sel. I fs cov sel \<Longrightarrow> set_size cov < set_size a \<Longrightarrow>
        sortedSlots_min cov fs \<noteq> []"
  shows "\<exists>sel' fs' cov'. min_loop a fs cov sel = Inr (sel', fs') \<and> I fs' cov' sel'
           \<and> \<not> set_size cov' < set_size a"
  using assms
proof (induction a fs cov sel rule: min_loop.induct)
  case (1 a fs cov sel)
  note I0 = "1.prems"(1) and st = "1.prems"(2) and ne = "1.prems"(3)
  show ?case
  proof (cases "set_size cov < set_size a")
    case False
    with I0 show ?thesis
      by (subst min_loop.simps) auto
  next
    case True
    from ne [OF I0 True] obtain k es rest
      where s: "sortedSlots_min cov fs = (k, es) # rest"
      by (cases "sortedSlots_min cov fs") auto
    have I': "I (obj_delete k fs) (fold set_add es cov) (obj_set k es sel)"
      by (rule st [OF I0 True s])
    have t: "truthy_array es" by (simp add: truthy_array_def)
    have "\<exists>sel' fs' cov'. min_loop a (obj_delete k fs) (fold set_add es cov) (obj_set k es sel)
           = Inr (sel', fs') \<and> I fs' cov' sel' \<and> \<not> set_size cov' < set_size a"
      by (rule "1.IH" [OF True s refl t I' st ne])
    then show ?thesis
      by (subst min_loop.simps) (simp add: True s t)
  qed
qed

lemma each_adds_new_snoc:
  "each_adds_new seen (sel @ [e]) \<longleftrightarrow>
     each_adds_new seen sel \<and> (\<exists>p\<in>set (snd e). p \<notin> set seen \<union> covered_by sel)"
  by (induction sel arbitrary: seen) (auto simp: covered_by_def)

lemma newCoverage_pos_iff:
  "0 < newCoverage cov kv \<longleftrightarrow> (\<exists>p\<in>set (snd kv). p \<notin> set cov)"
  by (auto simp: newCoverage_def set_has_def filter_empty_conv)

lemma length_fold_set_add_new:
  assumes "distinct cov" "p \<in> set es" "p \<notin> set cov"
  shows "length cov < length (fold set_add es cov)"
proof -
  have "card (set cov) < card (set es \<union> set cov)"
    using assms by (intro psubset_card_mono) auto
  then show ?thesis
    using assms(1) by (simp add: distinct_card [symmetric] del: )
qed

lemma uncovered_slot:
  assumes dist: "distinct (map fst idx0)"
    and inv: "min_inv idx0 fs cov sel"
    and cond: "set_size cov < set_size (new_Set (concat (obj_values idx0)))"
  shows "\<exists>kv\<in>set fs. 0 < newCoverage cov kv"
proof -
  let ?a = "new_Set (concat (obj_values idx0))"
  have "\<not> set ?a \<subseteq> set cov"
  proof
    assume "set ?a \<subseteq> set cov"
    then have "card (set ?a) \<le> card (set cov)" by (intro card_mono) auto
    moreover have "distinct cov" using inv by (simp add: min_inv_def)
    moreover have "card (set ?a) = length ?a" by (rule distinct_card) simp
    ultimately have "length ?a \<le> length cov"
      by (simp only: distinct_card)
    with cond show False by (simp add: set_size_def)
  qed
  then obtain p where p: "p \<in> set ?a" "p \<notin> set cov" by blast
  then obtain k es where kes: "(k, es) \<in> set idx0" "p \<in> set es"
    by (auto simp: obj_values_def)
  have "k \<notin> fst ` set sel"
  proof
    assume "k \<in> fst ` set sel"
    then obtain es' where s: "(k, es') \<in> set sel" by auto
    with inv have "(k, es') \<in> set idx0" by (auto simp: min_inv_def)
    with dist kes(1) have "es' = es" by (meson eq_key_imp_eq_value)
    with s kes(2) have "p \<in> covered_by sel" by (force simp: covered_by_def)
    with inv p(2) show False by (simp add: min_inv_def)
  qed
  with kes(1) inv have "(k, es) \<in> set fs" by (simp add: min_inv_def)
  moreover have "0 < newCoverage cov (k, es)"
    using kes(2) p(2) by (auto simp: newCoverage_pos_iff)
  ultimately show ?thesis by blast
qed

lemma min_inv_nonempty:
  assumes "distinct (map fst idx0)" "min_inv idx0 fs cov sel"
    "set_size cov < set_size (new_Set (concat (obj_values idx0)))"
  shows "sortedSlots_min cov fs \<noteq> []"
  using uncovered_slot [OF assms] by (auto simp: sortedSlots_min_def js_sort_Nil_iff)

lemma best_slot_new:
  assumes dist: "distinct (map fst idx0)"
    and inv: "min_inv idx0 fs cov sel"
    and cond: "set_size cov < set_size (new_Set (concat (obj_values idx0)))"
    and s: "sortedSlots_min cov fs = (k, es) # rest"
  shows "(k, es) \<in> set fs" and "0 < newCoverage cov (k, es)"
proof -
  from s show "(k, es) \<in> set fs"
    unfolding sortedSlots_min_def by (rule js_sort_head_max(1))
  from uncovered_slot [OF dist inv cond] obtain kv where
    kv: "kv \<in> set fs" "0 < newCoverage cov kv" by blast
  have "newCoverage cov kv \<le> newCoverage cov (k, es)"
    using s kv(1) unfolding sortedSlots_min_def by (rule js_sort_head_max(2))
  with kv(2) show "0 < newCoverage cov (k, es)" by simp
qed

lemma min_inv_step:
  assumes dist: "distinct (map fst idx0)"
    and inv: "min_inv idx0 fs cov sel"
    and cond: "set_size cov < set_size (new_Set (concat (obj_values idx0)))"
    and s: "sortedSlots_min cov fs = (k, es) # rest"
  shows "min_inv idx0 (obj_delete k fs) (fold set_add es cov) (obj_set k es sel)"
proof -
  note b = best_slot_new [OF dist inv cond s]
  from b(1) inv have fresh: "k \<notin> fst ` set sel" and in0: "(k, es) \<in> set idx0"
    by (auto simp: min_inv_def)
  have sel': "obj_set k es sel = sel @ [(k, es)]"
    by (rule obj_set_fresh [OF fresh])
  from b(2) obtain p where p: "p \<in> set es" "p \<notin> set cov"
    by (auto simp: newCoverage_pos_iff)
  have dc: "distinct cov" and cv: "set cov = covered_by sel"
    and le: "length sel \<le> length cov" and ea: "each_adds_new [] sel"
    and sub: "set sel \<subseteq> set idx0"
    and fs: "fs = filter (\<lambda>kv. fst kv \<notin> fst ` set sel) idx0"
    using inv by (simp_all add: min_inv_def)
  have 1: "obj_delete k fs = filter (\<lambda>kv. fst kv \<notin> fst ` set (sel @ [(k, es)])) idx0"
    unfolding obj_delete_def fs by (auto intro: filter_cong)
  have 2: "set (sel @ [(k, es)]) \<subseteq> set idx0" using sub in0 by simp
  have 3: "set (fold set_add es cov) = covered_by (sel @ [(k, es)])"
    using cv by (auto simp: covered_by_def)
  have 4: "distinct (fold set_add es cov)" using dc by simp
  have 5: "length (sel @ [(k, es)]) \<le> length (fold set_add es cov)"
    using length_fold_set_add_new [OF dc p] le by simp
  have 6: "each_adds_new [] (sel @ [(k, es)])"
    using ea p cv by (auto simp: each_adds_new_snoc)
  show ?thesis
    unfolding sel' min_inv_def using 1 2 3 4 5 6 by blast
qed

lemma min_inv_init: "min_inv idx0 idx0 [] []"
  by (simp add: min_inv_def covered_by_def)

lemma getMinimumTimeSlots_inv:
  assumes dist: "distinct (map fst idx0)"
  shows "\<exists>sel fs cov. getMinimumTimeSlots idx0 = Inr (sel, fs) \<and> min_inv idx0 fs cov sel
           \<and> \<not> set_size cov < set_size (new_Set (concat (obj_values idx0)))"
  unfolding getMinimumTimeSlots_def
  by (rule min_loop_rule [where I = "min_inv idx0"])
     (simp_all add: min_inv_init min_inv_step [OF dist] min_inv_nonempty [OF dist])

section \<open>Evaluation on concrete inputs\<close>

lemmas eval_simps = getMinimumTimeSlots_def min_loop.simps sortedSlots_min_def js_sort_def
  newCoverage_def set_has_def set_add_def new_Set_def set_size_def obj_delete_def obj_values_def
  truthy_array_def

lemmas iter_eval_simps = selectIterative_def iter_loop.simps sortedSlots_iter_def js_sort_def
  set_has_def set_add_def set_delete_def set_size_def obj_values_def

lemmas sheet_eval_simps = getIterativeTimeSlots_def getSheetByName_def insertSheet_def
  clear_def appendRow_def setValue_def getRows_def getValue_def

lemmas builder_eval_simps = findAvailableSlotsForEmails_def availableSlotsForEmails_def
  findAvailableSlots_def addDay_def push_email_def cell_at_def days_def availabilityIndices_def
  emailIndex_def trackIndex_def trim_def is_space_def new_Set_def set_add_def set_has_def
  obj_values_def Let_def

section \<open>Properties of getMinimumTimeSlots\<close>

text \<open>
  Claim C1 (coverage totality). For every slot index, getMinimumTimeSlots returns a
  selection (it does not throw), and the union of the participant lists of the selected
  entries equals the set of all participants that appear anywhere in the index.
\<close>

theorem getMinimumTimeSlots_covers_all:
  assumes "distinct (map fst idx)"
  shows "\<exists>sel rest. getMinimumTimeSlots idx = Inr (sel, rest) \<and>
           (\<Union>e\<in>set sel. set (snd e)) = (\<Union>e\<in>set idx. set (snd e))"
proof -
  let ?a = "new_Set (concat (obj_values idx))"
  from getMinimumTimeSlots_inv [OF assms] obtain sel fs cov where
    r: "getMinimumTimeSlots idx = Inr (sel, fs)" and inv: "min_inv idx fs cov sel"
    and ex: "\<not> set_size cov < set_size ?a"
    by blast
  have a: "set ?a = (\<Union>e\<in>set idx. set (snd e))"
    by (auto simp: obj_values_def)
  have sub: "set cov \<subseteq> set ?a"
    using inv unfolding a by (auto simp: min_inv_def covered_by_def)
  have "card (set ?a) = length ?a" by (rule distinct_card) simp
  moreover have "card (set cov) = length cov"
    using inv by (intro distinct_card) (simp add: min_inv_def)
  ultimately have "card (set ?a) \<le> card (set cov)"
    using ex by (simp add: set_size_def)
  with sub have "set cov = set ?a" by (intro card_seteq) auto
  then have "(\<Union>e\<in>set sel. set (snd e)) = (\<Union>e\<in>set idx. set (snd e))"
    using inv a by (simp add: min_inv_def covered_by_def)
  with r show ?thesis by blast
qed

theorem getMinimumTimeSlots_covers_all_witness:
  "distinct (map fst ex_overlap) \<and>
   getMinimumTimeSlots ex_overlap = Inr (ex_overlap, []) \<and>
   (\<Union>e\<in>set ex_overlap. set (snd e)) = {''p1'', ''p2'', ''p3''}"
  using getMinimumTimeSlots_covers_all [of ex_overlap]
  by (simp add: ex_overlap_def eval_simps insert_commute)

text \<open>
  Claim C2 (disjointness) fails on the code: a selected entry keeps the slot's full
  participant list, so a participant available in two selected slots appears in both.
  In the index \<open>A: [p1, p2], B: [p2, p3]\<close> both slots are selected and \<open>p2\<close> is
  in two entries.
\<close>

theorem getMinimumTimeSlots_disjoint_counterexample:
  "getMinimumTimeSlots ex_overlap = Inr (ex_overlap, []) \<and>
   length (entries_with ''p2'' ex_overlap) = 2"
  by (simp add: ex_overlap_def eval_simps entries_with_def)

text \<open>
  Claim C2 as amended. Every participant of the index appears in at least one entry of
  the selection (not in exactly one); every selected entry is an entry of the index,
  with its full participant list; and every selected entry contains at least one
  participant that no earlier selected entry contains.
\<close>

theorem getMinimumTimeSlots_covers_at_least_once:
  assumes "distinct (map fst idx)"
  shows "\<exists>sel rest. getMinimumTimeSlots idx = Inr (sel, rest) \<and>
           set sel \<subseteq> set idx \<and>
           (\<forall>e\<in>set idx. \<forall>p\<in>set (snd e). 1 \<le> length (entries_with p sel)) \<and>
           each_adds_new [] sel"
proof -
  from getMinimumTimeSlots_inv [OF assms] obtain sel fs cov where
    r: "getMinimumTimeSlots idx = Inr (sel, fs)" and inv: "min_inv idx fs cov sel"
    and ex: "\<not> set_size cov < set_size (new_Set (concat (obj_values idx)))"
    by blast
  have sub: "set sel \<subseteq> set idx" and ea: "each_adds_new [] sel"
    and cv: "set cov = covered_by sel" and dc: "distinct cov"
    using inv by (simp_all add: min_inv_def)
  let ?a = "new_Set (concat (obj_values idx))"
  have a: "set ?a = covered_by idx"
    by (simp add: obj_values_def covered_by_def)
  have "covered_by sel \<subseteq> covered_by idx"
    using sub unfolding covered_by_def by blast
  then have "set cov \<subseteq> set ?a" unfolding a cv .
  moreover have "card (set ?a) \<le> card (set cov)"
  proof -
    have "card (set ?a) = length ?a" by (rule distinct_card) simp
    moreover have "card (set cov) = length cov" using dc by (rule distinct_card)
    ultimately show ?thesis using ex by (simp add: set_size_def)
  qed
  ultimately have "set cov = set ?a" by (intro card_seteq) auto
  then have eq: "covered_by sel = covered_by idx" using a cv by simp
  have "1 \<le> length (entries_with p sel)" if "e \<in> set idx" "p \<in> set (snd e)" for e p
  proof -
    from that have "p \<in> covered_by idx" unfolding covered_by_def by blast
    then have "p \<in> covered_by sel" by (simp add: eq)
    then obtain e' where "e' \<in> set sel" "p \<in> set (snd e')"
      unfolding covered_by_def by blast
    then have "e' \<in> set (entries_with p sel)" by (simp add: entries_with_def)
    then have "entries_with p sel \<noteq> []" by force
    then show ?thesis by (simp add: Suc_le_eq)
  qed
  with r sub ea show ?thesis
    by (intro exI [of _ sel] exI [of _ fs]) simp
qed

theorem getMinimumTimeSlots_covers_at_least_once_witness:
  "distinct (map fst ex_overlap) \<and>
   getMinimumTimeSlots ex_overlap = Inr (ex_overlap, []) \<and>
   length (entries_with ''p1'' ex_overlap) = 1 \<and>
   length (entries_with ''p2'' ex_overlap) = 2 \<and>
   length (entries_with ''p3'' ex_overlap) = 1"
proof -
  have d: "distinct (map fst ex_overlap)"
    by (simp add: ex_overlap_def)
  have e: "getMinimumTimeSlots ex_overlap = Inr (ex_overlap, [])"
    by (simp add: ex_overlap_def eval_simps)
  have n: "length (entries_with ''p1'' ex_overlap) = 1"
    "length (entries_with ''p2'' ex_overlap) = 2"
    "length (entries_with ''p3'' ex_overlap) = 1"
    by (simp_all add: ex_overlap_def entries_with_def)
  from getMinimumTimeSlots_covers_at_least_once [OF d] d e n show ?thesis
    by simp
qed

text \<open>
  Claim C9 (working-index consumption). After getMinimumTimeSlots returns, the caller's
  object holds exactly the entries of the index that were not selected: every selected
  entry is an entry of the index and has been deleted, and the entries left are those of
  the index whose key was not selected, in their order and with their participant lists
  unchanged.
\<close>

theorem getMinimumTimeSlots_consumes_index:
  assumes "distinct (map fst idx)"
  shows "\<exists>sel rest. getMinimumTimeSlots idx = Inr (sel, rest) \<and>
           set sel \<subseteq> set idx \<and>
           rest = filter (\<lambda>kv. fst kv \<notin> fst ` set sel) idx \<and>
           set rest = set idx - set sel"
proof -
  from getMinimumTimeSlots_inv [OF assms] obtain sel fs cov where
    r: "getMinimumTimeSlots idx = Inr (sel, fs)" and inv: "min_inv idx fs cov sel"
    by blast
  have sub: "set sel \<subseteq> set idx"
    and fs: "fs = filter (\<lambda>kv. fst kv \<notin> fst ` set sel) idx"
    using inv by (simp_all add: min_inv_def)
  have keys: "(k, es) \<in> set sel \<longleftrightarrow> k \<in> fst ` set sel"
    if "(k, es) \<in> set idx" for k es
  proof
    assume "(k, es) \<in> set sel"
    then show "k \<in> fst ` set sel" by force
  next
    assume "k \<in> fst ` set sel"
    then obtain es' where s: "(k, es') \<in> set sel" by auto
    with sub have "(k, es') \<in> set idx" by blast
    with assms that have "es' = es" by (meson eq_key_imp_eq_value)
    with s show "(k, es) \<in> set sel" by simp
  qed
  have "set fs = set idx - set sel"
  proof (rule set_eqI)
    fix kv :: "string \<times> email list"
    obtain k es where kv: "kv = (k, es)" by (cases kv)
    have "kv \<in> set fs \<longleftrightarrow> (k, es) \<in> set idx \<and> k \<notin> fst ` set sel"
      unfolding fs kv by simp
    also have "\<dots> \<longleftrightarrow> (k, es) \<in> set idx \<and> (k, es) \<notin> set sel"
      using keys by blast
    finally show "kv \<in> set fs \<longleftrightarrow> kv \<in> set idx - set sel"
      unfolding kv by simp
  qed
  with r sub fs show ?thesis by (intro exI [of _ sel] exI [of _ fs]) simp
qed

theorem getMinimumTimeSlots_consumes_index_witness:
  "distinct (map fst ex_partial) \<and>
   getMinimumTimeSlots ex_partial =
     Inr ([(''B'', [''p1'', ''p2'', ''p3''])], [(''A'', [''p1'', ''p2'']), (''C'', [''p3''])])"
proof -
  have d: "distinct (map fst ex_partial)"
    by (simp add: ex_partial_def)
  have e: "getMinimumTimeSlots ex_partial =
     Inr ([(''B'', [''p1'', ''p2'', ''p3''])], [(''A'', [''p1'', ''p2'']), (''C'', [''p3''])])"
    by (simp add: ex_partial_def eval_simps)
  from getMinimumTimeSlots_consumes_index [OF d] d e show ?thesis
    by simp
qed

text \<open>
  Claim C10 (termination of the greedy loop). For every index the loop ends without
  reading \<open>sortedSlots[0]\<close> of an empty array (the result is never the TypeError),
  every selected entry contains a participant that no earlier selected entry contains,
  and the number of iterations, which is the number of selected entries, is at most the
  number of distinct participants of the index. The function \<open>min_loop\<close> is total: its
  termination is proved where it is defined.
\<close>

theorem getMinimumTimeSlots_terminates:
  assumes "distinct (map fst idx)"
  shows "\<exists>sel rest. getMinimumTimeSlots idx = Inr (sel, rest) \<and>
           each_adds_new [] sel \<and>
           length sel \<le> card (\<Union>e\<in>set idx. set (snd e))"
proof -
  from getMinimumTimeSlots_inv [OF assms] obtain sel fs cov where
    r: "getMinimumTimeSlots idx = Inr (sel, fs)" and inv: "min_inv idx fs cov sel"
    by blast
  have "set cov \<subseteq> (\<Union>e\<in>set idx. set (snd e))"
    using inv by (auto simp: min_inv_def covered_by_def)
  then have "card (set cov) \<le> card (\<Union>e\<in>set idx. set (snd e))"
    by (intro card_mono) auto
  moreover have "card (set cov) = length cov"
    using inv by (intro distinct_card) (simp add: min_inv_def)
  moreover have "length sel \<le> length cov" using inv by (simp add: min_inv_def)
  ultimately have "length sel \<le> card (\<Union>e\<in>set idx. set (snd e))" by simp
  with r inv show ?thesis by (auto simp: min_inv_def)
qed

theorem getMinimumTimeSlots_terminates_witness:
  "distinct (map fst ex_overlap) \<and>
   getMinimumTimeSlots ex_overlap = Inr (ex_overlap, []) \<and>
   each_adds_new [] ex_overlap \<and> length ex_overlap \<le> card {''p1'', ''p2'', ''p3''}"
proof -
  have d: "distinct (map fst ex_overlap)"
    by (simp add: ex_overlap_def)
  have e: "getMinimumTimeSlots ex_overlap = Inr (ex_overlap, [])"
    by (simp add: ex_overlap_def eval_simps)
  have u: "(\<Union>e\<in>set ex_overlap. set (snd e)) = {''p1'', ''p2'', ''p3''}"
    by (simp add: ex_overlap_def insert_commute)
  from getMinimumTimeSlots_terminates [OF d] d e u show ?thesis
    by simp
qed

section \<open>Facts about getIterativeTimeSlots\<close>

lemma filter_eq_append_ConsD:
  "filter P ys = pre @ h # post \<Longrightarrow>
   \<exists>a b. ys = a @ h # b \<and> filter P a = pre \<and> filter P b = post"
proof (induction ys arbitrary: pre)
  case Nil
  then show ?case by simp
next
  case (Cons y ys)
  show ?case
  proof (cases "P y")
    case False
    with Cons.prems have "filter P ys = pre @ h # post" by simp
    from Cons.IH [OF this] obtain a b where
      "ys = a @ h # b" "filter P a = pre" "filter P b = post" by blast
    with False show ?thesis
      by (intro exI [of _ "y # a"] exI [of _ b]) simp
  next
    case True
    show ?thesis
    proof (cases pre)
      case Nil
      with True Cons.prems have "y = h" "filter P ys = post" by simp_all
      then show ?thesis
        using Nil by (intro exI [of _ "[]"] exI [of _ ys]) simp
    next
      case (Cons p pre')
      with True Cons.prems have py: "p = y" and "filter P ys = pre' @ h # post" by simp_all
      from Cons.IH [OF this(2)] obtain a b where
        "ys = a @ h # b" "filter P a = pre'" "filter P b = post" by blast
      with True py Cons show ?thesis
        by (intro exI [of _ "y # a"] exI [of _ b]) simp
    qed
  qed
qed

lemma sortedSlots_iter_head:
  assumes s: "sortedSlots_iter slots rem = (t, f, c) # rest"
  shows "\<exists>pre es post. slots = pre @ (t, es) # post \<and>
           f = filter (\<lambda>email. set_has rem email) es \<and> c = length f \<and> 0 < c \<and>
           (\<forall>e\<in>set pre. filteredCount rem e < c) \<and>
           (\<forall>e\<in>set post. filteredCount rem e \<le> c)"
proof -
  let ?g = "\<lambda>(timeSlot, studentEmails).
              let filteredEmails = filter (\<lambda>email. set_has rem email) studentEmails
              in (timeSlot, filteredEmails, length filteredEmails)"
  let ?P = "\<lambda>(_, _, count). (count::nat) > 0"
  let ?k = "\<lambda>a :: string \<times> email list \<times> nat. snd (snd a)"
  have g: "?k (?g e) = filteredCount rem e" for e
    by (cases e) (simp add: filteredCount_def Let_def)
  from s have "js_sort (\<lambda>a b. int (?k b) - int (?k a)) (filter ?P (map ?g slots)) = (t, f, c) # rest"
    by (simp add: sortedSlots_iter_def)
  from js_sort_head [OF this] obtain pre' post' where
    d: "filter ?P (map ?g slots) = pre' @ (t, f, c) # post'"
    and lt: "\<forall>y\<in>set pre'. ?k y < c" and le: "\<forall>y\<in>set post'. ?k y \<le> c"
    by auto
  have "(t, f, c) \<in> set (filter ?P (map ?g slots))" unfolding d by simp
  then have pos: "0 < c" by simp
  from filter_eq_append_ConsD [OF d] obtain a b where
    ab: "map ?g slots = a @ (t, f, c) # b" "filter ?P a = pre'" "filter ?P b = post'"
    by blast
  have a_lt: "?k y < c" if "y \<in> set a" for y
  proof (cases "?P y")
    case True
    with that ab(2) have "y \<in> set pre'" by auto
    with lt show ?thesis by blast
  next
    case False
    then have "?k y = 0" by (cases y) auto
    with pos show ?thesis by simp
  qed
  have b_le: "?k y \<le> c" if "y \<in> set b" for y
  proof (cases "?P y")
    case True
    with that ab(3) have "y \<in> set post'" by auto
    with le show ?thesis by blast
  next
    case False
    then have "?k y = 0" by (cases y) auto
    then show ?thesis by simp
  qed
  from ab(1) obtain pre r where
    p: "slots = pre @ r" "map ?g pre = a" "map ?g r = (t, f, c) # b"
    by (auto simp: map_eq_append_conv)
  from p(3) obtain e post where
    q: "r = e # post" "?g e = (t, f, c)" "map ?g post = b"
    by (auto simp: map_eq_Cons_conv)
  obtain t' es where e: "e = (t', es)" by (cases e)
  with q(2) have e': "t' = t" "f = filter (\<lambda>email. set_has rem email) es" "c = length f"
    by (auto simp: Let_def)
  have 1: "\<forall>e\<in>set pre. filteredCount rem e < c"
  proof
    fix x assume "x \<in> set pre"
    then have "?g x \<in> set a" using p(2) by auto
    from a_lt [OF this] show "filteredCount rem x < c" by (simp only: g)
  qed
  have 2: "\<forall>e\<in>set post. filteredCount rem e \<le> c"
  proof
    fix x assume "x \<in> set post"
    then have "?g x \<in> set b" using q(3) by auto
    from b_le [OF this] show "filteredCount rem x \<le> c" by (simp only: g)
  qed
  show ?thesis
    using p(1) q(1) e e' pos 1 2
    by (intro exI [of _ pre] exI [of _ es] exI [of _ post]) simp
qed

lemma rows_fold_appendRow: "rows (fold appendRow rs sh) = rows sh @ rs"
  by (induction rs arbitrary: sh) (simp_all add: appendRow_def)

lemma ranges_fold_appendRow: "ranges (fold appendRow rs sh) = ranges sh"
  by (induction rs arbitrary: sh) (simp_all add: appendRow_def)

lemma getIterativeTimeSlots_rows:
  "getRows (getIterativeTimeSlots ss slots m name v exc) name
     = headers_iterative # fst (selectIterative slots m)"
proof -
  obtain fin rem tot where r: "selectIterative slots m = (fin, rem, tot)"
    by (cases "selectIterative slots m")
  show ?thesis
    by (cases "ss name")
       (simp_all add: sheet_eval_simps r Let_def rows_fold_appendRow)
qed

lemma getIterativeTimeSlots_D2:
  "getValue (getIterativeTimeSlots ss slots m name v exc) name ''D2''
     = (if exc = [] then None else Some (Str (join '', '' exc)))"
proof -
  obtain fin rem tot where r: "selectIterative slots m = (fin, rem, tot)"
    by (cases "selectIterative slots m")
  show ?thesis
    by (cases "ss name")
       (simp_all add: sheet_eval_simps r Let_def ranges_fold_appendRow)
qed

lemma getIterativeTimeSlots_E2:
  "getValue (getIterativeTimeSlots ss slots m name v exc) name ''E2''
     = Some (Num (int (length exc)))"
proof -
  obtain fin rem tot where r: "selectIterative slots m = (fin, rem, tot)"
    by (cases "selectIterative slots m")
  show ?thesis
    by (cases "ss name")
       (simp_all add: sheet_eval_simps r Let_def ranges_fold_appendRow)
qed

lemma getIterativeTimeSlots_F2:
  "getValue (getIterativeTimeSlots ss slots m name v exc) name ''F2''
     = Some (Num (int (length exc + snd (snd (selectIterative slots m)))))"
proof -
  obtain fin rem tot where r: "selectIterative slots m = (fin, rem, tot)"
    by (cases "selectIterative slots m")
  show ?thesis
    by (cases "ss name")
       (simp_all add: sheet_eval_simps r Let_def ranges_fold_appendRow)
qed

lemma iter_loop_rule:
  assumes "I rem fin tot"
    and "\<And>rem fin tot s f c rest. I rem fin tot \<Longrightarrow> m \<le> int (set_size rem) \<Longrightarrow>
        sortedSlots_iter slots rem = (s, f, c) # rest \<Longrightarrow> \<not> int c < m \<Longrightarrow>
        I (fold set_delete f rem)
          (fin @ [[Str s, Str (join '', '' f), Num (int c)]]) (tot + c)"
  shows "case iter_loop slots m rem fin tot of (fin', rem', tot') \<Rightarrow> I rem' fin' tot'"
  using assms
proof (induction slots m rem fin tot rule: iter_loop.induct)
  case (1 slots m rem fin tot)
  note I0 = "1.prems"(1) and st = "1.prems"(2)
  show ?case
  proof (cases "m \<le> int (set_size rem)")
    case False
    with I0 show ?thesis by (subst iter_loop.simps) simp
  next
    case True
    show ?thesis
    proof (cases "sortedSlots_iter slots rem")
      case Nil
      with I0 show ?thesis by (subst iter_loop.simps) simp
    next
      case (Cons h rest)
      obtain s f c where h: "h = (s, f, c)" by (cases h)
      note sorted = Cons [unfolded h]
      show ?thesis
      proof (cases "int c < m")
        case True
        with I0 sorted show ?thesis by (subst iter_loop.simps) simp
      next
        case False
        have I': "I (fold set_delete f rem)
          (fin @ [[Str s, Str (join '', '' f), Num (int c)]]) (tot + c)"
          by (rule st [OF I0 True sorted False])
        have "case iter_loop slots m (fold set_delete f rem)
               (fin @ [[Str s, Str (join '', '' f), Num (int c)]]) (tot + c)
              of (fin', rem', tot') \<Rightarrow> I rem' fin' tot'"
          by (rule "1.IH" [OF True sorted refl refl False I' st])
        then show ?thesis
          by (subst iter_loop.simps) (simp add: True sorted False)
      qed
    qed
  qed
qed

lemma iter_loop_nonpositive:
  "m \<le> 0 \<Longrightarrow> iter_loop slots m rem fin tot = iter_loop slots 0 rem fin tot"
proof (induction slots m rem fin tot rule: iter_loop.induct)
  case (1 slots m rem fin tot)
  have c: "m \<le> int (set_size rem)" "0 \<le> int (set_size rem)"
    using "1.prems" by simp_all
  show ?case
  proof (cases "sortedSlots_iter slots rem")
    case Nil
    then show ?thesis
      by (subst iter_loop.simps, subst (2) iter_loop.simps) simp
  next
    case (Cons h rest)
    obtain s f k where h: "h = (s, f, k)" by (cases h)
    note sorted = Cons [unfolded h]
    have n: "\<not> int k < m" "\<not> int k < 0" using "1.prems" by simp_all
    have "iter_loop slots m (fold set_delete f rem)
            (fin @ [[Str s, Str (join '', '' f), Num (int k)]]) (tot + k)
        = iter_loop slots 0 (fold set_delete f rem)
            (fin @ [[Str s, Str (join '', '' f), Num (int k)]]) (tot + k)"
      by (rule "1.IH" [OF c(1) sorted refl refl n(1) "1.prems"])
    then show ?thesis
      by (subst iter_loop.simps, subst (2) iter_loop.simps) (simp add: c sorted n)
  qed
qed



subsection \<open>The first slot of maximal count is the one selected\<close>

lemma js_sort_first_max:
  assumes "\<forall>y\<in>set pre. f y < f h" "\<forall>y\<in>set post. f y \<le> f h"
  shows "\<exists>r. js_sort (\<lambda>a b. int (f b) - int (f a)) (pre @ h # post) = h # r"
  using assms(1)
proof (induction pre)
  case Nil
  let ?cmp = "\<lambda>a b. int (f b) - int (f a)"
  show ?case
  proof (cases "js_sort ?cmp post")
    case Nil
    then show ?thesis by (simp add: js_sort_Cons)
  next
    case (Cons h' r')
    then have "h' \<in> set (js_sort ?cmp post)" by simp
    then have "h' \<in> set post" by (simp only: set_js_sort)
    with assms(2) have "f h' \<le> f h" by blast
    with Cons show ?thesis by (simp add: js_sort_Cons)
  qed
next
  case (Cons x pre)
  let ?cmp = "\<lambda>a b. int (f b) - int (f a)"
  from Cons.prems have x: "f x < f h" and p: "\<forall>y\<in>set pre. f y < f h" by simp_all
  from Cons.IH [OF p] obtain r where r: "js_sort ?cmp (pre @ h # post) = h # r" by blast
  have "js_sort ?cmp ((x # pre) @ h # post) = insert_by ?cmp x (h # r)"
    by (simp add: js_sort_Cons r)
  also have "\<dots> = h # insert_by ?cmp x r" using x by simp
  finally show ?case by blast
qed

lemma min_loop_round:
  assumes "set_size cov < set_size a" "fs = pre @ (k, es) # post"
    "\<forall>e\<in>set pre. newCoverage cov e < newCoverage cov (k, es)"
    "\<forall>e\<in>set post. newCoverage cov e \<le> newCoverage cov (k, es)"
  shows "min_loop a fs cov sel
    = min_loop a (obj_delete k fs) (fold set_add es cov) (obj_set k es sel)"
    and "\<exists>r. sortedSlots_min cov fs = (k, es) # r"
proof -
  from js_sort_first_max [OF assms(3,4)] obtain r where
    r: "sortedSlots_min cov fs = (k, es) # r"
    unfolding sortedSlots_min_def assms(2) by blast
  then show "\<exists>r. sortedSlots_min cov fs = (k, es) # r" by blast
  show "min_loop a fs cov sel
    = min_loop a (obj_delete k fs) (fold set_add es cov) (obj_set k es sel)"
    by (subst min_loop.simps) (simp add: assms(1) r truthy_array_def)
qed

lemma sortedSlots_iter_first_max:
  assumes "slots = pre @ (s, es) # post"
    "\<forall>e\<in>set pre. filteredCount rem e < filteredCount rem (s, es)"
    "\<forall>e\<in>set post. filteredCount rem e \<le> filteredCount rem (s, es)"
    "0 < filteredCount rem (s, es)"
  shows "\<exists>r. sortedSlots_iter slots rem
    = (s, filter (\<lambda>email. set_has rem email) es, filteredCount rem (s, es)) # r"
proof -
  let ?g = "\<lambda>(timeSlot, studentEmails).
              let filteredEmails = filter (\<lambda>email. set_has rem email) studentEmails
              in (timeSlot, filteredEmails, length filteredEmails)"
  let ?P = "\<lambda>(_, _, count). (count::nat) > 0"
  let ?k = "\<lambda>a :: string \<times> email list \<times> nat. snd (snd a)"
  let ?h = "(s, filter (\<lambda>email. set_has rem email) es, filteredCount rem (s, es))"
  have g: "?k (?g e) = filteredCount rem e" for e
    by (cases e) (simp add: filteredCount_def Let_def)
  have gh: "?g (s, es) = ?h" by (simp add: filteredCount_def Let_def)
  have Ph: "?P ?h" using assms(4) by simp
  have d: "filter ?P (map ?g slots)
      = filter ?P (map ?g pre) @ ?h # filter ?P (map ?g post)"
    unfolding assms(1) using Ph gh by simp
  have 1: "\<forall>y\<in>set (filter ?P (map ?g pre)). ?k y < ?k ?h"
  proof
    fix y assume "y \<in> set (filter ?P (map ?g pre))"
    then obtain e where e: "e \<in> set pre" "y = ?g e" by auto
    from assms(2) e(1) have "filteredCount rem e < filteredCount rem (s, es)" by blast
    then show "?k y < ?k ?h" unfolding e(2) g by simp
  qed
  have 2: "\<forall>y\<in>set (filter ?P (map ?g post)). ?k y \<le> ?k ?h"
  proof
    fix y assume "y \<in> set (filter ?P (map ?g post))"
    then obtain e where e: "e \<in> set post" "y = ?g e" by auto
    from assms(3) e(1) have "filteredCount rem e \<le> filteredCount rem (s, es)" by blast
    then show "?k y \<le> ?k ?h" unfolding e(2) g by simp
  qed
  from js_sort_first_max [OF 1 2] show ?thesis
    unfolding sortedSlots_iter_def d by blast
qed

lemma iter_loop_round:
  assumes "m \<le> int (set_size rem)" "slots = pre @ (s, es) # post"
    "\<forall>e\<in>set pre. filteredCount rem e < filteredCount rem (s, es)"
    "\<forall>e\<in>set post. filteredCount rem e \<le> filteredCount rem (s, es)"
    "0 < filteredCount rem (s, es)" "m \<le> int (filteredCount rem (s, es))"
  shows "iter_loop slots m rem fin tot
    = iter_loop slots m
        (fold set_delete (filter (\<lambda>email. set_has rem email) es) rem)
        (fin @ [[Str s, Str (join '', '' (filter (\<lambda>email. set_has rem email) es)),
                 Num (int (filteredCount rem (s, es)))]])
        (tot + filteredCount rem (s, es))"
proof -
  from sortedSlots_iter_first_max [OF assms(2,3,4,5)] obtain r where
    r: "sortedSlots_iter slots rem
      = (s, filter (\<lambda>email. set_has rem email) es, filteredCount rem (s, es)) # r"
    by blast
  from assms(6) have n: "\<not> int (filteredCount rem (s, es)) < m" by simp
  show ?thesis
    by (subst iter_loop.simps) (simp add: assms(1) r n)
qed

lemma obj_set_keeps_head:
  "k' \<noteq> k \<Longrightarrow> obj_set k' v ((k, es) # later) = (k, es) # obj_set k' v later"
  by simp

lemma getMinimumTimeSlots_first:
  assumes dist: "distinct (map fst idx)" and idx: "idx = pre @ (k, es) # post"
    and ne: "es \<noteq> []"
    and lt: "\<forall>e\<in>set pre. length (snd e) < length es"
    and le: "\<forall>e\<in>set post. length (snd e) \<le> length es"
  shows "\<exists>later rest. getMinimumTimeSlots idx = Inr ((k, es) # later, rest)"
proof -
  let ?a = "new_Set (concat (obj_values idx))"
  let ?I = "\<lambda>fs cov sel. min_inv idx fs cov sel \<and> (\<exists>later. sel = (k, es) # later)"
  have nc: "newCoverage [] e = length (snd e)" for e :: "string \<times> email list"
    by (simp add: newCoverage_def set_has_def)
  from ne obtain p where "p \<in> set es" by (cases es) auto
  then have "p \<in> set ?a" unfolding idx by (simp add: obj_values_def)
  then have "0 < length ?a" by (rule length_pos_if_in_set)
  then have cond: "set_size ([] :: email list) < set_size ?a" by (simp add: set_size_def)
  have 1: "\<forall>e\<in>set pre. newCoverage [] e < newCoverage [] (k, es)"
    using lt by (simp add: nc)
  have 2: "\<forall>e\<in>set post. newCoverage [] e \<le> newCoverage [] (k, es)"
    using le by (simp add: nc)
  note round = min_loop_round [OF cond idx 1 2]
  from round(2) obtain r where r: "sortedSlots_min [] idx = (k, es) # r" by blast
  have init: "min_inv idx (obj_delete k idx) (fold set_add es []) (obj_set k es [])"
    by (rule min_inv_step [OF dist min_inv_init cond r])
  have "\<exists>sel' fs' cov'. min_loop ?a (obj_delete k idx) (fold set_add es []) (obj_set k es [])
          = Inr (sel', fs') \<and> ?I fs' cov' sel' \<and> \<not> set_size cov' < set_size ?a"
  proof (rule min_loop_rule [where I = ?I], goal_cases)
    case 1
    show ?case using init by simp
  next
    case (2 fs cov sel k' es' rest)
    then have inv: "min_inv idx fs cov sel" and c: "set_size cov < set_size ?a"
      and s: "sortedSlots_min cov fs = (k', es') # rest" by simp_all
    from 2(1) obtain later where later: "sel = (k, es) # later" by blast
    have "(k', es') \<in> set fs" by (rule best_slot_new(1) [OF dist inv c s])
    with inv have "k' \<notin> fst ` set sel" by (auto simp: min_inv_def)
    with later have "k' \<noteq> k" by auto
    then have "obj_set k' es' sel = (k, es) # obj_set k' es' later"
      unfolding later by (rule obj_set_keeps_head)
    moreover have "min_inv idx (obj_delete k' fs) (fold set_add es' cov) (obj_set k' es' sel)"
      by (rule min_inv_step [OF dist inv c s])
    ultimately show ?case by blast
  next
    case (3 fs cov sel)
    then show ?case using min_inv_nonempty [OF dist] by blast
  qed
  then obtain later fs' where
    "min_loop ?a (obj_delete k idx) (fold set_add es []) (obj_set k es [])
       = Inr ((k, es) # later, fs')"
    by blast
  then have "getMinimumTimeSlots idx = Inr ((k, es) # later, fs')"
    unfolding getMinimumTimeSlots_def round(1) .
  then show ?thesis by blast
qed

lemma iter_loop_prefix: "\<exists>later. fst (iter_loop slots m rem fin tot) = fin @ later"
proof -
  let ?I = "\<lambda>(rem' :: email list) fin' (tot' :: nat). \<exists>later. fin' = fin @ later"
  have "case iter_loop slots m rem fin tot of (fin', rem', tot') \<Rightarrow> ?I rem' fin' tot'"
    by (rule iter_loop_rule [where I = ?I]) auto
  moreover obtain fin' rem' tot' where "iter_loop slots m rem fin tot = (fin', rem', tot')"
    by (cases "iter_loop slots m rem fin tot")
  ultimately show ?thesis by simp
qed

lemma set_initial_remaining:
  "set (fold (\<lambda>studentList remainingStudents. fold set_add studentList remainingStudents) ls s)
     = \<Union> (set ` set ls) \<union> set s"
  by (induction ls arbitrary: s) auto

lemma distinct_initial_remaining:
  "distinct (fold (\<lambda>studentList remainingStudents. fold set_add studentList remainingStudents) ls s)
     = distinct s"
  by (induction ls arbitrary: s) auto

lemma selectIterative_first:
  assumes slots: "slots = pre @ (s, es) # post" and ne: "es \<noteq> []"
    and lt: "\<forall>e\<in>set pre. length (snd e) < length es"
    and le: "\<forall>e\<in>set post. length (snd e) \<le> length es"
    and m1: "m \<le> int (length es)" and m2: "m \<le> int (card (covered_by slots))"
  shows "\<exists>later. fst (selectIterative slots m)
     = [Str s, Str (join '', '' es), Num (int (length es))] # later"
proof -
  let ?rem = "fold (\<lambda>studentList remainingStudents. fold set_add studentList remainingStudents)
      (obj_values slots) []"
  have sr: "set ?rem = covered_by slots"
    by (simp add: set_initial_remaining covered_by_def obj_values_def)
  have dr: "distinct ?rem" by (simp add: distinct_initial_remaining)
  have fc: "filter (\<lambda>email. set_has ?rem email) (snd e) = snd e" if "e \<in> set slots" for e
  proof -
    have "\<forall>x\<in>set (snd e). set_has ?rem x"
      using that unfolding set_has_def sr covered_by_def by blast
    then show ?thesis by (simp only: filter_True)
  qed
  have cnt: "filteredCount ?rem e = length (snd e)" if "e \<in> set slots" for e
    unfolding filteredCount_def fc [OF that] ..
  have self: "(s, es) \<in> set slots" unfolding slots by simp
  have f: "filter (\<lambda>email. set_has ?rem email) es = es"
    using fc [OF self] by simp
  have c: "filteredCount ?rem (s, es) = length es"
    using cnt [OF self] by simp
  have size: "m \<le> int (set_size ?rem)"
    using m2 distinct_card [OF dr] by (simp add: set_size_def sr)
  have 1: "\<forall>e\<in>set pre. filteredCount ?rem e < filteredCount ?rem (s, es)"
  proof
    fix e assume e: "e \<in> set pre"
    then have "e \<in> set slots" unfolding slots by simp
    from cnt [OF this] lt e show "filteredCount ?rem e < filteredCount ?rem (s, es)"
      unfolding c by simp
  qed
  have 2: "\<forall>e\<in>set post. filteredCount ?rem e \<le> filteredCount ?rem (s, es)"
  proof
    fix e assume e: "e \<in> set post"
    then have "e \<in> set slots" unfolding slots by simp
    from cnt [OF this] le e show "filteredCount ?rem e \<le> filteredCount ?rem (s, es)"
      unfolding c by simp
  qed
  have 3: "0 < filteredCount ?rem (s, es)" unfolding c using ne by simp
  have 4: "m \<le> int (filteredCount ?rem (s, es))" unfolding c by (rule m1)
  have "iter_loop slots m ?rem [] 0
    = iter_loop slots m (fold set_delete es ?rem)
        ([] @ [[Str s, Str (join '', '' es), Num (int (length es))]]) (0 + length es)"
    using iter_loop_round [OF size slots 1 2 3 4, of "[]" 0] unfolding f c .
  moreover obtain later where "fst (iter_loop slots m (fold set_delete es ?rem)
        ([] @ [[Str s, Str (join '', '' es), Num (int (length es))]]) (0 + length es))
      = ([] @ [[Str s, Str (join '', '' es), Num (int (length es))]]) @ later"
    using iter_loop_prefix by blast
  ultimately have "fst (selectIterative slots m)
     = [Str s, Str (join '', '' es), Num (int (length es))] # later"
    unfolding selectIterative_def by simp
  then show ?thesis by blast
qed

section \<open>Properties of getIterativeTimeSlots\<close>

text \<open>
  Claim C3 (composition of the reported exclusion set) fails on the code: the function
  writes to D2 and E2 the list \<open>excludedStudents\<close> it was given and nothing else; the
  students left in \<open>remainingStudents\<close> when the loop stops are not reported. For the
  slots \<open>A: [p1, p2], B: [p3, p4]\<close> and a minimum group size of 3, called with no
  excluded students, all four students remain, D2 is not written and E2 is 0.
\<close>

theorem getIterativeTimeSlots_exclusion_counterexample:
  "selectIterative ex_threshold 3 = ([], [''p1'', ''p2'', ''p3'', ''p4''], 0) \<and>
   getValue (getIterativeTimeSlots Map.empty ex_threshold 3 ''out'' [] []) ''out'' ''D2'' = None \<and>
   getValue (getIterativeTimeSlots Map.empty ex_threshold 3 ''out'' [] []) ''out'' ''E2''
     = Some (Num 0)"
  by (simp add: getIterativeTimeSlots_D2 getIterativeTimeSlots_E2 ex_threshold_def iter_eval_simps)

text \<open>
  Claim C3 as amended. The exclusion list that getIterativeTimeSlots reports is exactly
  the list supplied by the caller: D2 holds it joined with commas (and is not written
  when it is empty) and E2 holds its length, whatever the index and the minimum group
  size are. For the slots \<open>A: [p1, p2], B: [p3, p4]\<close> and a minimum group size of 3,
  no slot is selected (only the header row is written) and the four students are the
  final value of \<open>remainingStudents\<close>.
\<close>

theorem getIterativeTimeSlots_exclusion_report:
  "getValue (getIterativeTimeSlots ss slots m name v exc) name ''D2''
     = (if exc = [] then None else Some (Str (join '', '' exc))) \<and>
   getValue (getIterativeTimeSlots ss slots m name v exc) name ''E2''
     = Some (Num (int (length exc))) \<and>
   selectIterative ex_threshold 3 = ([], [''p1'', ''p2'', ''p3'', ''p4''], 0) \<and>
   getRows (getIterativeTimeSlots ss ex_threshold 3 name v exc) name = [headers_iterative]"
proof -
  have "selectIterative ex_threshold 3 = ([], [''p1'', ''p2'', ''p3'', ''p4''], 0)"
    by (simp add: ex_threshold_def iter_eval_simps)
  then show ?thesis
    by (simp add: getIterativeTimeSlots_D2 getIterativeTimeSlots_E2 getIterativeTimeSlots_rows)
qed



text \<open>
  Claim C5 (ties go to the slot inserted first). Whenever a slot of the index has
  strictly more new coverage than every slot before it and at least as much as every
  slot after it, a round of getMinimumTimeSlots selects that slot: the loop goes on with
  the slot stored in \<open>selectedSlots\<close>, deleted from the index and its students
  covered; in the first round this slot becomes the first entry of the returned
  selection. The same holds for getIterativeTimeSlots and the number of remaining
  students, when the threshold lets the round select: the loop goes on with the row of
  that slot appended, and in the first round this row is the first one returned and
  written below the header. Conversely the slot at the head of either ranking always
  has this position. Among slots of equal count the one inserted first is therefore
  the one selected, and the functions give the same result on the same input.
\<close>

theorem tie_break_insertion_order:
  "(sortedSlots_min cov fs = (k, es) # rest \<longrightarrow>
      (\<exists>pre post. fs = pre @ (k, es) # post \<and>
         (\<forall>e\<in>set pre. newCoverage cov e < newCoverage cov (k, es)) \<and>
         (\<forall>e\<in>set post. newCoverage cov e \<le> newCoverage cov (k, es)))) \<and>
   (sortedSlots_iter slots rem = (s, f, c) # rest' \<longrightarrow>
      (\<exists>pre es' post. slots = pre @ (s, es') # post \<and>
         f = filter (\<lambda>email. set_has rem email) es' \<and> c = filteredCount rem (s, es') \<and>
         (\<forall>e\<in>set pre. filteredCount rem e < c) \<and>
         (\<forall>e\<in>set post. filteredCount rem e \<le> c))) \<and>
   (set_size cov < set_size allStudents \<and> fs = pre @ (k, es) # post \<and>
    (\<forall>e\<in>set pre. newCoverage cov e < newCoverage cov (k, es)) \<and>
    (\<forall>e\<in>set post. newCoverage cov e \<le> newCoverage cov (k, es)) \<longrightarrow>
      min_loop allStudents fs cov sel
        = min_loop allStudents (obj_delete k fs) (fold set_add es cov) (obj_set k es sel)) \<and>
   (distinct (map fst idx) \<and> idx = pre @ (k, es) # post \<and> es \<noteq> [] \<and>
    (\<forall>e\<in>set pre. length (snd e) < length es) \<and>
    (\<forall>e\<in>set post. length (snd e) \<le> length es) \<longrightarrow>
      (\<exists>later left. getMinimumTimeSlots idx = Inr ((k, es) # later, left))) \<and>
   (m \<le> int (set_size rem) \<and> slots = pre @ (s, es) # post \<and>
    (\<forall>e\<in>set pre. filteredCount rem e < filteredCount rem (s, es)) \<and>
    (\<forall>e\<in>set post. filteredCount rem e \<le> filteredCount rem (s, es)) \<and>
    0 < filteredCount rem (s, es) \<and> m \<le> int (filteredCount rem (s, es)) \<longrightarrow>
      iter_loop slots m rem fin tot
        = iter_loop slots m
            (fold set_delete (filter (\<lambda>email. set_has rem email) es) rem)
            (fin @ [[Str s, Str (join '', '' (filter (\<lambda>email. set_has rem email) es)),
                     Num (int (filteredCount rem (s, es)))]])
            (tot + filteredCount rem (s, es))) \<and>
   (slots = pre @ (s, es) # post \<and> es \<noteq> [] \<and>
    (\<forall>e\<in>set pre. length (snd e) < length es) \<and>
    (\<forall>e\<in>set post. length (snd e) \<le> length es) \<and>
    m \<le> int (length es) \<and> m \<le> int (card (covered_by slots)) \<longrightarrow>
      (\<exists>later. fst (selectIterative slots m)
           = [Str s, Str (join '', '' es), Num (int (length es))] # later \<and>
         getRows (getIterativeTimeSlots ss slots m name v exc) name
           = headers_iterative # [Str s, Str (join '', '' es), Num (int (length es))] # later))"
proof (intro conjI impI; (elim conjE)?)
  assume "sortedSlots_min cov fs = (k, es) # rest"
  then show "\<exists>pre post. fs = pre @ (k, es) # post \<and>
         (\<forall>e\<in>set pre. newCoverage cov e < newCoverage cov (k, es)) \<and>
         (\<forall>e\<in>set post. newCoverage cov e \<le> newCoverage cov (k, es))"
    unfolding sortedSlots_min_def by (rule js_sort_head)
next
  assume a: "sortedSlots_iter slots rem = (s, f, c) # rest'"
  from sortedSlots_iter_head [OF a] obtain pre es' post where
    d: "slots = pre @ (s, es') # post" "f = filter (\<lambda>email. set_has rem email) es'"
      "c = length f"
      "\<forall>e\<in>set pre. filteredCount rem e < c" "\<forall>e\<in>set post. filteredCount rem e \<le> c"
    by blast
  have "c = filteredCount rem (s, es')"
    using d(2,3) by (simp add: filteredCount_def)
  with d show "\<exists>pre es' post. slots = pre @ (s, es') # post \<and>
         f = filter (\<lambda>email. set_has rem email) es' \<and> c = filteredCount rem (s, es') \<and>
         (\<forall>e\<in>set pre. filteredCount rem e < c) \<and>
         (\<forall>e\<in>set post. filteredCount rem e \<le> c)"
    by (intro exI [of _ pre] exI [of _ es'] exI [of _ post]) simp
next
  assume "set_size cov < set_size allStudents" "fs = pre @ (k, es) # post"
    "\<forall>e\<in>set pre. newCoverage cov e < newCoverage cov (k, es)"
    "\<forall>e\<in>set post. newCoverage cov e \<le> newCoverage cov (k, es)"
  then show "min_loop allStudents fs cov sel
        = min_loop allStudents (obj_delete k fs) (fold set_add es cov) (obj_set k es sel)"
    by (rule min_loop_round(1))
next
  assume "distinct (map fst idx)" "idx = pre @ (k, es) # post" "es \<noteq> []"
    "\<forall>e\<in>set pre. length (snd e) < length es" "\<forall>e\<in>set post. length (snd e) \<le> length es"
  then show "\<exists>later left. getMinimumTimeSlots idx = Inr ((k, es) # later, left)"
    by (rule getMinimumTimeSlots_first)
next
  assume "m \<le> int (set_size rem)" "slots = pre @ (s, es) # post"
    "\<forall>e\<in>set pre. filteredCount rem e < filteredCount rem (s, es)"
    "\<forall>e\<in>set post. filteredCount rem e \<le> filteredCount rem (s, es)"
    "0 < filteredCount rem (s, es)" "m \<le> int (filteredCount rem (s, es))"
  then show "iter_loop slots m rem fin tot
        = iter_loop slots m
            (fold set_delete (filter (\<lambda>email. set_has rem email) es) rem)
            (fin @ [[Str s, Str (join '', '' (filter (\<lambda>email. set_has rem email) es)),
                     Num (int (filteredCount rem (s, es)))]])
            (tot + filteredCount rem (s, es))"
    by (rule iter_loop_round)
next
  assume a: "slots = pre @ (s, es) # post" "es \<noteq> []"
    "\<forall>e\<in>set pre. length (snd e) < length es" "\<forall>e\<in>set post. length (snd e) \<le> length es"
    "m \<le> int (length es)" "m \<le> int (card (covered_by slots))"
  from selectIterative_first [OF a] obtain later where
    l: "fst (selectIterative slots m)
          = [Str s, Str (join '', '' es), Num (int (length es))] # later"
    by blast
  have "getRows (getIterativeTimeSlots ss slots m name v exc) name
      = headers_iterative # [Str s, Str (join '', '' es), Num (int (length es))] # later"
    unfolding getIterativeTimeSlots_rows l ..
  with l show "\<exists>later. fst (selectIterative slots m)
           = [Str s, Str (join '', '' es), Num (int (length es))] # later \<and>
         getRows (getIterativeTimeSlots ss slots m name v exc) name
           = headers_iterative # [Str s, Str (join '', '' es), Num (int (length es))] # later"
    by blast
qed

theorem tie_break_insertion_order_witness:
  "distinct (map fst ex_tie) \<and>
   ex_tie = [(''C'', [''p5''])] @ (''A'', [''p1'', ''p2'']) # [(''B'', [''p3'', ''p4''])] \<and>
   length [''p5''] < length [''p1'', ''p2''] \<and>
   length [''p3'', ''p4''] \<le> length [''p1'', ''p2''] \<and>
   (2 :: int) \<le> int (card (covered_by ex_tie)) \<and>
   sortedSlots_min [] ex_tie
     = [(''A'', [''p1'', ''p2'']), (''B'', [''p3'', ''p4'']), (''C'', [''p5''])] \<and>
   getMinimumTimeSlots ex_tie
     = Inr ([(''A'', [''p1'', ''p2'']), (''B'', [''p3'', ''p4'']), (''C'', [''p5''])], []) \<and>
   selectIterative ex_tie 2
     = ([[Str ''A'', Str ''p1, p2'', Num 2], [Str ''B'', Str ''p3, p4'', Num 2]], [''p5''], 4) \<and>
   (\<exists>later left. getMinimumTimeSlots ex_tie = Inr ((''A'', [''p1'', ''p2'']) # later, left)) \<and>
   (\<exists>later. getRows (getIterativeTimeSlots Map.empty ex_tie 2 ''out'' [] []) ''out''
      = headers_iterative # [Str ''A'', Str ''p1, p2'', Num 2] # later)"
proof -
  have d: "distinct (map fst ex_tie)"
    by (simp add: ex_tie_def)
  have i: "ex_tie = [(''C'', [''p5''])] @ (''A'', [''p1'', ''p2'']) # [(''B'', [''p3'', ''p4''])]"
    by (simp add: ex_tie_def)
  have n: "[''p1'', ''p2''] \<noteq> ([] :: email list)" by simp
  have lt: "\<forall>e\<in>set [(''C'', [''p5''])]. length (snd e) < length [''p1'', ''p2'']"
    by simp
  have le: "\<forall>e\<in>set [(''B'', [''p3'', ''p4''])]. length (snd e) \<le> length [''p1'', ''p2'']"
    by simp
  have m1: "(2 :: int) \<le> int (length [''p1'', ''p2''])" by simp
  have "covered_by ex_tie = {''p5'', ''p1'', ''p2'', ''p3'', ''p4''}"
    by (simp add: ex_tie_def covered_by_def insert_commute)
  then have m2: "(2 :: int) \<le> int (card (covered_by ex_tie))" by simp
  have a: "sortedSlots_min [] ex_tie
     = [(''A'', [''p1'', ''p2'']), (''B'', [''p3'', ''p4'']), (''C'', [''p5''])]"
    by (simp add: ex_tie_def eval_simps)
  have b: "getMinimumTimeSlots ex_tie
     = Inr ([(''A'', [''p1'', ''p2'']), (''B'', [''p3'', ''p4'']), (''C'', [''p5''])], [])"
    by (simp add: ex_tie_def eval_simps)
  have c: "selectIterative ex_tie 2
     = ([[Str ''A'', Str ''p1, p2'', Num 2], [Str ''B'', Str ''p3, p4'', Num 2]], [''p5''], 4)"
    by (simp add: ex_tie_def iter_eval_simps)
  note t = tie_break_insertion_order [where idx = ex_tie and slots = ex_tie
      and pre = "[(''C'', [''p5''])]" and k = "''A''" and s = "''A''"
      and es = "[''p1'', ''p2'']" and post = "[(''B'', [''p3'', ''p4''])]" and m = 2
      and ss = Map.empty and name = "''out''" and v = "[]" and exc = "[]"]
  from t d i n lt le have 1:
    "\<exists>later left. getMinimumTimeSlots ex_tie = Inr ((''A'', [''p1'', ''p2'']) # later, left)"
    by blast
  from t i n lt le m1 m2 have 2:
    "\<exists>later. fst (selectIterative ex_tie 2)
           = [Str ''A'', Str (join '', '' [''p1'', ''p2'']), Num (int (length [''p1'', ''p2'']))] # later \<and>
         getRows (getIterativeTimeSlots Map.empty ex_tie 2 ''out'' [] []) ''out''
           = headers_iterative
             # [Str ''A'', Str (join '', '' [''p1'', ''p2'']), Num (int (length [''p1'', ''p2'']))] # later"
    by blast
  then have 3: "\<exists>later. getRows (getIterativeTimeSlots Map.empty ex_tie 2 ''out'' [] []) ''out''
      = headers_iterative # [Str ''A'', Str ''p1, p2'', Num 2] # later"
    by auto
  from d i m2 a b c 1 3 show ?thesis
    by simp
qed

text \<open>
  Claim C6 (a negative minimum group size is rejected) fails on the code: the function
  has no check of \<open>minGroupSize\<close>. With the index \<open>A: [p1]\<close> and a minimum group
  size of -1 a round runs and the slot is written to the sheet.
\<close>

theorem getIterativeTimeSlots_negative_counterexample:
  "getRows (getIterativeTimeSlots Map.empty ex_single (- 1) ''out'' [] []) ''out''
     = [headers_iterative, [Str ''A'', Str ''p1'', Num 1]]"
  by (simp add: getIterativeTimeSlots_rows ex_single_def iter_eval_simps)

text \<open>
  Claim C6 as amended. A negative minimum group size is not rejected: no error is
  raised, and the call behaves exactly as the call with minimum group size 0.
\<close>

theorem getIterativeTimeSlots_negative_as_zero:
  assumes "minGroupSize < 0"
  shows "getIterativeTimeSlots ss slots minGroupSize name v exc
     = getIterativeTimeSlots ss slots 0 name v exc"
proof -
  from assms have "minGroupSize \<le> 0" by simp
  then have "selectIterative slots minGroupSize = selectIterative slots 0"
    unfolding selectIterative_def by (rule iter_loop_nonpositive)
  then show ?thesis
    unfolding getIterativeTimeSlots_def by (rule arg_cong)
qed

theorem getIterativeTimeSlots_negative_as_zero_witness:
  "(- 1 :: int) < 0 \<and>
   getRows (getIterativeTimeSlots Map.empty ex_single (- 1) ''out'' [] []) ''out''
     = getRows (getIterativeTimeSlots Map.empty ex_single 0 ''out'' [] []) ''out'' \<and>
   getRows (getIterativeTimeSlots Map.empty ex_single 0 ''out'' [] []) ''out''
     = [headers_iterative, [Str ''A'', Str ''p1'', Num 1]]"
proof -
  have n: "(- 1 :: int) < 0" by simp
  have e: "getRows (getIterativeTimeSlots Map.empty ex_single 0 ''out'' [] []) ''out''
     = [headers_iterative, [Str ''A'', Str ''p1'', Num 1]]"
    by (simp add: getIterativeTimeSlots_rows ex_single_def iter_eval_simps)
  from getIterativeTimeSlots_negative_as_zero [OF n, of Map.empty ex_single "''out''" "[]" "[]"] e
  show ?thesis by simp
qed

section \<open>Facts about the index builders\<close>

lemma getMinimumTimeSlots_empty: "getMinimumTimeSlots [] = Inr ([], [])"
  by (simp add: getMinimumTimeSlots_def min_loop.simps new_Set_def obj_values_def set_size_def)

lemma selectIterative_empty: "selectIterative [] m = ([], [], 0)"
  by (simp add: selectIterative_def iter_loop.simps sortedSlots_iter_def js_sort_def
      obj_values_def)

lemma findAvailableSlotsForEmails_empty:
  assumes "fst (findAvailableSlotsForEmails data emails thresh) = []"
  shows "snd (findAvailableSlotsForEmails data emails thresh) = emails"
proof -
  let ?fs = "filter (\<lambda>(_, list). int (length list) \<ge> thresh)
      (availableSlotsForEmails data emails)"
  have r: "findAvailableSlotsForEmails data emails thresh
      = (?fs, filter (\<lambda>email. \<not> set_has (new_Set (concat (obj_values ?fs))) email) emails)"
    by (simp only: findAvailableSlotsForEmails_def Let_def)
  from assms have e: "?fs = []" by (simp only: r fst_conv)
  show ?thesis
    unfolding r snd_conv e by (simp add: new_Set_def obj_values_def set_has_def)
qed

lemma findAvailableSlots_empty:
  assumes "findAvailableSlots data track thresh = Inr ([], excluded)"
  shows "\<exists>slots. collectTrack track (drop 1 data) [] [] = Inr (slots, excluded)"
proof (cases "collectTrack track (drop 1 data) [] []")
  case (Inl e)
  with assms show ?thesis by (simp add: findAvailableSlots_def)
next
  case (Inr r)
  obtain slots students where r: "r = (slots, students)" by (cases r)
  let ?fs = "fold (\<lambda>(key, emails) acc.
                 if int (length emails) \<ge> thresh then obj_set key emails acc else acc)
               slots []"
  let ?ex = "filter (\<lambda>email. \<not> set_has
            (fold (\<lambda>emails included. fold set_add emails included) (obj_values ?fs) []) email)
          students"
  have q: "findAvailableSlots data track thresh = Inr (?fs, ?ex)"
    by (simp only: findAvailableSlots_def Inr r sum.case prod.case Let_def)
  have "Inr (?fs, ?ex) = (Inr ([], excluded) :: error + (slot_index \<times> email list))"
    by (rule trans [OF q [symmetric] assms])
  note ex = this [unfolded sum.inject prod.inject]
  from ex have e: "?fs = []" by (rule conjunct1)
  from ex have x: "?ex = excluded" by (rule conjunct2)
  have "excluded = students"
    unfolding x [symmetric] e by (simp add: obj_values_def set_has_def)
  with Inr r show ?thesis by simp
qed

section \<open>The index builders on a trailing comma, and the empty index\<close>

text \<open>
  Claim C8 (the builders skip empty tokens): the code does not do this. Both builders
  test the whole availability cell only and give every token an entry. The cell
  \<open>10am,\<close> splits into the token \<open>10am\<close> and the empty token, and both builders
  create the entry whose key is \<open>Mon\<close> followed by a space; preprocessStudentData keeps
  the token \<open>10am\<close> alone.
\<close>

theorem builders_keep_empty_token:
  "str_split CHR '','' ''10am,'' = [''10am'', []] \<and>
   preprocess_timeSlots ''10am,'' = [''10am''] \<and>
   findAvailableSlotsForEmails ex_data [''ann@x.org''] 0
     = ([(''Mon 10am'', [''ann@x.org'']), (''Mon '', [''ann@x.org''])], []) \<and>
   findAvailableSlots ex_data ''SEARCH'' 0
     = Inr ([(''Mon 10am'', [''ann@x.org'']), (''Mon '', [''ann@x.org''])], [])"
  by (simp add: ex_data_def ex_row_def preprocess_timeSlots_def builder_eval_simps)

text \<open>
  Claim C7 (empty index). For an index with no slot, getMinimumTimeSlots returns the
  empty selection without an error, and getIterativeTimeSlots selects nothing for any
  minimum group size: it writes the header row only and reports in D2 and E2 the
  excluded students it was given. When the index a builder returns is empty, the
  excluded students it returns with it are the whole input population: the list of
  e-mails given to findAvailableSlotsForEmails, the students of the track for
  findAvailableSlots.
\<close>

theorem empty_index_result:
  "getMinimumTimeSlots [] = Inr ([], []) \<and>
   selectIterative [] m = ([], [], 0) \<and>
   getRows (getIterativeTimeSlots ss [] m name v exc) name = [headers_iterative] \<and>
   getValue (getIterativeTimeSlots ss [] m name v exc) name ''D2''
     = (if exc = [] then None else Some (Str (join '', '' exc))) \<and>
   getValue (getIterativeTimeSlots ss [] m name v exc) name ''E2''
     = Some (Num (int (length exc))) \<and>
   (fst (findAvailableSlotsForEmails data emails thresh) = [] \<longrightarrow>
      snd (findAvailableSlotsForEmails data emails thresh) = emails) \<and>
   (findAvailableSlots data track thresh = Inr ([], excluded) \<longrightarrow>
      (\<exists>slots. collectTrack track (drop 1 data) [] [] = Inr (slots, excluded)))"
proof (intro conjI impI)
  show "getMinimumTimeSlots [] = Inr ([], [])"
    by (rule getMinimumTimeSlots_empty)
  show "selectIterative [] m = ([], [], 0)"
    by (rule selectIterative_empty)
  show "getRows (getIterativeTimeSlots ss [] m name v exc) name = [headers_iterative]"
    by (simp add: getIterativeTimeSlots_rows selectIterative_empty)
  show "getValue (getIterativeTimeSlots ss [] m name v exc) name ''D2''
     = (if exc = [] then None else Some (Str (join '', '' exc)))"
    by (rule getIterativeTimeSlots_D2)
  show "getValue (getIterativeTimeSlots ss [] m name v exc) name ''E2''
     = Some (Num (int (length exc)))"
    by (rule getIterativeTimeSlots_E2)
  show "snd (findAvailableSlotsForEmails data emails thresh) = emails"
    if "fst (findAvailableSlotsForEmails data emails thresh) = []"
    using that by (rule findAvailableSlotsForEmails_empty)
  show "\<exists>slots. collectTrack track (drop 1 data) [] [] = Inr (slots, excluded)"
    if "findAvailableSlots data track thresh = Inr ([], excluded)"
    using that by (rule findAvailableSlots_empty)
qed

theorem empty_index_result_witness:
  "findAvailableSlotsForEmails ex_data [''ann@x.org''] 2 = ([], [''ann@x.org'']) \<and>
   findAvailableSlots ex_data ''SEARCH'' 2 = Inr ([], [''ann@x.org'']) \<and>
   collectTrack ''SEARCH'' (drop 1 ex_data) [] []
     = Inr ([(''Mon 10am'', [''ann@x.org'']), (''Mon '', [''ann@x.org''])], [''ann@x.org'']) \<and>
   getMinimumTimeSlots [] = Inr ([], []) \<and>
   getRows (getIterativeTimeSlots Map.empty [] 0 ''out'' [] [''ann@x.org'']) ''out''
     = [headers_iterative] \<and>
   getValue (getIterativeTimeSlots Map.empty [] 0 ''out'' [] [''ann@x.org'']) ''out'' ''D2''
     = Some (Str ''ann@x.org'') \<and>
   getValue (getIterativeTimeSlots Map.empty [] 0 ''out'' [] [''ann@x.org'']) ''out'' ''E2''
     = Some (Num 1)"
proof -
  have a: "fst (findAvailableSlotsForEmails ex_data [''ann@x.org''] 2) = []"
    by (simp add: ex_data_def ex_row_def builder_eval_simps)
  have b: "findAvailableSlots ex_data ''SEARCH'' 2 = Inr ([], [''ann@x.org''])"
    by (simp add: ex_data_def ex_row_def builder_eval_simps)
  have c: "collectTrack ''SEARCH'' (drop 1 ex_data) [] []
     = Inr ([(''Mon 10am'', [''ann@x.org'']), (''Mon '', [''ann@x.org''])], [''ann@x.org''])"
    by (simp add: ex_data_def ex_row_def builder_eval_simps)
  note t = empty_index_result [of 0 Map.empty "''out''" "[]" "[''ann@x.org'']"
      ex_data "[''ann@x.org'']" 2 "''SEARCH''" "[''ann@x.org'']"]
  from t a have d: "snd (findAvailableSlotsForEmails ex_data [''ann@x.org''] 2) = [''ann@x.org'']"
    by blast
  from a d have e: "findAvailableSlotsForEmails ex_data [''ann@x.org''] 2 = ([], [''ann@x.org''])"
    by (simp add: prod_eq_iff)
  from t have f: "getMinimumTimeSlots [] = Inr ([], [])"
    "getRows (getIterativeTimeSlots Map.empty [] 0 ''out'' [] [''ann@x.org'']) ''out''
       = [headers_iterative]"
    "getValue (getIterativeTimeSlots Map.empty [] 0 ''out'' [] [''ann@x.org'']) ''out'' ''D2''
       = (if [''ann@x.org''] = [] then None else Some (Str (join '', '' [''ann@x.org''])))"
    "getValue (getIterativeTimeSlots Map.empty [] 0 ''out'' [] [''ann@x.org'']) ''out'' ''E2''
       = Some (Num (int (length [''ann@x.org''])))"
    by blast+
  from b c e f show ?thesis by simp
qed

end
